theory Spec2Isabelle
  imports Complex_Main "HOL-Library.Multiset" "HOL-Library.AList"
begin

section \<open>The netlist read from \<^verbatim>\<open>output.json\<close>\<close>

text \<open>
  A JavaScript object is an association list holding its own enumerable keys in the order
  in which \<^verbatim>\<open>for (k in obj)\<close> visits them; a parsed JSON object never repeats a
  key.  \<^verbatim>\<open>k in obj\<close> and \<^verbatim>\<open>obj[k]\<close> are read as lookups of own keys (keys that
  happen to name a member of \<^verbatim>\<open>Object.prototype\<close> are outside the model).  Net ids are
  natural numbers (the constant bits that a netlist may write as strings are outside the
  model), and every port and cell has the fields that the script reads.
\<close>

record port =
  direction :: string
  bits :: "nat list"

record cell =
  cell_type :: string
  port_directions :: "(string \<times> string) list"
  connections :: "(string \<times> nat list) list"

record module =
  ports :: "(string \<times> port) list"
  cells :: "(string \<times> cell) list"

record netlist =
  modules :: "(string \<times> module) list"

text \<open>
  Every way the script stops with an exception.  The three assertions of the script are
  kept apart by the place that raises them:
  \<^item> \<open>InvalidPortDirection d\<close>: \<^verbatim>\<open>throw Error('Invalid port direction: ' + d)\<close>;
  \<^item> \<open>InvalidPortWidth\<close>: \<^verbatim>\<open>assert(port.bits.length == 1)\<close> and
    \<^verbatim>\<open>assert(cell.connections.A.length == 1)\<close> (and B, Y);
  \<^item> \<open>GateDirection\<close>: \<^verbatim>\<open>assert(cell.port_directions.A == 'input')\<close> (and B, Y);
  \<^item> \<open>MultipleDrivers\<close>: \<^verbatim>\<open>assert(net.source === undefined)\<close> in \<^verbatim>\<open>add_net_source\<close>;
  \<^item> \<open>TypeError\<close>: the runtime's error on reading a property of \<^verbatim>\<open>undefined\<close>;
  \<^item> \<open>CyclicDependency\<close>: the error of the external \<^verbatim>\<open>topsort\<close>.
\<close>

datatype error =
    InvalidPortDirection string
  | InvalidPortWidth
  | GateDirection
  | MultipleDrivers
  | TypeError
  | CyclicDependency

definition bind_err :: "error + 'a \<Rightarrow> ('a \<Rightarrow> error + 'b) \<Rightarrow> error + 'b" where
  "bind_err r f = (case r of Inl e \<Rightarrow> Inl e | Inr v \<Rightarrow> f v)"

text \<open>A \<^verbatim>\<open>for\<close> loop whose body may throw: the first exception ends the loop.\<close>

fun fold_err :: "('a \<Rightarrow> 's \<Rightarrow> error + 's) \<Rightarrow> 'a list \<Rightarrow> 's \<Rightarrow> error + 's" where
  "fold_err f [] s = Inr s"
| "fold_err f (a # as) s = (case f a s of Inl e \<Rightarrow> Inl e | Inr s' \<Rightarrow> fold_err f as s')"

text \<open>\<^verbatim>\<open>xs[0]\<close>: \<open>None\<close> is \<^verbatim>\<open>undefined\<close>.\<close>

definition index0 :: "'a list \<Rightarrow> 'a option" where
  "index0 xs = (case xs of [] \<Rightarrow> None | b # _ \<Rightarrow> Some b)"

text \<open>The decimal numeral that string concatenation gives a non-negative integer.\<close>

definition digit :: "nat \<Rightarrow> char" where
  "digit d = ''0123456789'' ! d"

function string_of_nat :: "nat \<Rightarrow> string" where
  "string_of_nat k = (if k < 10 then [digit k] else string_of_nat (k div 10) @ [digit (k mod 10)])"
  by pat_completeness auto
termination
  by (relation "measure id") auto

declare string_of_nat.simps [simp del]

text \<open>What \<^verbatim>\<open>'.' + p\<close> appends for a slot \<open>p\<close> that may be \<^verbatim>\<open>undefined\<close>.\<close>

definition js_str :: "string option \<Rightarrow> string" where
  "js_str p = (case p of None \<Rightarrow> ''undefined'' | Some s \<Rightarrow> s)"

section \<open>\<^verbatim>\<open>module_deps\<close>\<close>

definition module_deps :: "netlist \<Rightarrow> (string \<times> string) list" where
  "module_deps data =
     concat (map (\<lambda>(name, md).
       concat (map (\<lambda>(cname, cell).
         if cell_type cell \<in> fst ` set (modules data) then [(cell_type cell, name)] else [])
         (cells md)))
       (modules data))"

section \<open>\<^verbatim>\<open>order_ports\<close>\<close>

type_synonym pdata = "string \<times> nat option"
type_synonym portmap = "string \<rightharpoonup> string"

text \<open>
  \<^verbatim>\<open>comp(a, b) = a.num - b.num\<close>; \<open>None\<close> is \<^verbatim>\<open>NaN\<close>, the difference when a
  port has an empty bit list, which \<^verbatim>\<open>sort\<close> reads as 0.
\<close>

definition comp :: "pdata \<Rightarrow> pdata \<Rightarrow> int option" where
  "comp a b = (case (snd a, snd b) of
                 (Some i, Some j) \<Rightarrow> Some (int i - int j)
               | _ \<Rightarrow> None)"

definition comes_after :: "pdata \<Rightarrow> pdata \<Rightarrow> bool" where
  "comes_after a b = (case comp a b of None \<Rightarrow> False | Some d \<Rightarrow> 0 < d)"

text \<open>
  \<^verbatim>\<open>Array.prototype.sort\<close> with a comparator is a stable sort; it is modelled as the
  stable insertion sort.  For a comparator that is a total preorder (every \<^verbatim>\<open>num\<close>
  defined) every stable sort gives this result.
\<close>

fun insort_comp :: "pdata \<Rightarrow> pdata list \<Rightarrow> pdata list" where
  "insort_comp a [] = [a]"
| "insort_comp a (b # bs) = (if comes_after a b then b # insort_comp a bs else a # b # bs)"

definition sort_comp :: "pdata list \<Rightarrow> pdata list" where
  "sort_comp xs = foldr insort_comp xs []"

fun classify_ports ::
  "(string \<times> port) list \<Rightarrow> pdata list \<times> pdata list \<Rightarrow> error + (pdata list \<times> pdata list)" where
  "classify_ports [] acc = Inr acc"
| "classify_ports ((pname, p) # rest) (ins, outs) =
     (if direction p = ''input'' then classify_ports rest (ins @ [(pname, index0 (bits p))], outs)
      else if direction p = ''output'' then classify_ports rest (ins, outs @ [(pname, index0 (bits p))])
      else Inl (InvalidPortDirection (direction p)))"

text \<open>\<^verbatim>\<open>for (const k in xs) portmap[xs[k].name] = pre + k\<close>\<close>

definition assign_slot :: "string \<Rightarrow> nat \<times> pdata \<Rightarrow> portmap \<Rightarrow> portmap" where
  "assign_slot pre = (\<lambda>(k, pd) m. m(fst pd \<mapsto> pre @ string_of_nat k))"

definition assign_slots :: "string \<Rightarrow> pdata list \<Rightarrow> portmap \<Rightarrow> portmap" where
  "assign_slots pre xs pm = fold (assign_slot pre) (enumerate 0 xs) pm"

definition binmap :: portmap where
  "binmap = [''A'' \<mapsto> ''in0'', ''B'' \<mapsto> ''in1'', ''Y'' \<mapsto> ''out0'']"

definition module_portmap :: "module \<Rightarrow> error + portmap" where
  "module_portmap md =
     bind_err (classify_ports (ports md) ([], [])) (\<lambda>(ins, outs).
       Inr (assign_slots ''out'' (sort_comp outs) (assign_slots ''in'' (sort_comp ins) Map.empty)))"

text \<open>\<^verbatim>\<open>['$and', '$or', '$xor'].forEach((nm) => out[nm] = binmap)\<close>\<close>

definition gate_portmaps :: "string \<rightharpoonup> portmap" where
  "gate_portmaps = [''$and'' \<mapsto> binmap, ''$or'' \<mapsto> binmap, ''$xor'' \<mapsto> binmap]"

text \<open>One turn of \<^verbatim>\<open>for (const name in data.modules)\<close>, ending in \<^verbatim>\<open>out[name] = portmap\<close>.\<close>

definition order_module ::
  "string \<times> module \<Rightarrow> (string \<rightharpoonup> portmap) \<Rightarrow> error + (string \<rightharpoonup> portmap)" where
  "order_module = (\<lambda>(name, md) out. bind_err (module_portmap md) (\<lambda>pm. Inr (out(name \<mapsto> pm))))"

definition order_ports :: "netlist \<Rightarrow> error + (string \<rightharpoonup> portmap)" where
  "order_ports data = fold_err order_module (modules data) gate_portmaps"

section \<open>The net table of \<^verbatim>\<open>yosys_to_simcir\<close>\<close>

text \<open>
  The key of a net is what \<^verbatim>\<open>bits[0]\<close> gave: a net id, or \<^verbatim>\<open>undefined\<close> (\<open>None\<close>)
  when the list was empty.  \<^verbatim>\<open>for (nnum in nets)\<close> visits integer keys in ascending
  order and the key \<^verbatim>\<open>"undefined"\<close> last, so a new key is entered at that place (net
  ids are taken below \<open>2^32 - 1\<close>, where JavaScript keeps this order).
\<close>

type_synonym netkey = "nat option"

record net =
  source :: "string option"
  targets :: "string list"

type_synonym nets = "(netkey \<times> net) list"

fun key_before :: "netkey \<Rightarrow> netkey \<Rightarrow> bool" where
  "key_before (Some a) (Some b) = (a < b)"
| "key_before (Some a) None = True"
| "key_before None k = False"

fun insert_net :: "netkey \<Rightarrow> nets \<Rightarrow> nets" where
  "insert_net k [] = [(k, \<lparr>source = None, targets = []\<rparr>)]"
| "insert_net k ((k', v) # rest) =
     (if key_before k k' then (k, \<lparr>source = None, targets = []\<rparr>) # (k', v) # rest
      else (k', v) # insert_net k rest)"

text \<open>\<^verbatim>\<open>get_net\<close> returns the net of the key and the table, extended when the key is new.\<close>

definition get_net :: "netkey \<Rightarrow> nets \<Rightarrow> net \<times> nets" where
  "get_net k tbl = (case map_of tbl k of
                      None \<Rightarrow> (\<lparr>source = None, targets = []\<rparr>, insert_net k tbl)
                    | Some nt \<Rightarrow> (nt, tbl))"

definition add_net_source :: "netkey \<Rightarrow> string \<Rightarrow> string option \<Rightarrow> nets \<Rightarrow> error + nets" where
  "add_net_source k d p tbl =
     (let (nt, tbl') = get_net k tbl
      in if source nt \<noteq> None then Inl MultipleDrivers
         else Inr (AList.update k (nt\<lparr>source := Some (d @ ''.'' @ js_str p)\<rparr>) tbl'))"

definition add_net_target :: "netkey \<Rightarrow> string \<Rightarrow> string option \<Rightarrow> nets \<Rightarrow> nets" where
  "add_net_target k d p tbl =
     (let (nt, tbl') = get_net k tbl
      in AList.update k (nt\<lparr>targets := targets nt @ [d @ ''.'' @ js_str p]\<rparr>) tbl')"

section \<open>\<^verbatim>\<open>yosys_to_simcir\<close>\<close>

record device =
  dev_id :: string
  dev_x :: real
  dev_y :: real
  dev_label :: string
  dev_order :: "nat option"
  dev_type :: string

record connector =
  conn_from :: string
  conn_to :: "string option"

record diagram =
  width :: real
  height :: real
  devices :: "device list"
  connectors :: "connector list"

record conv_state =
  st_n :: nat
  st_nets :: nets
  st_devices :: "device list"

definition gen_name :: "nat \<Rightarrow> string \<times> nat" where
  "gen_name k = (''dev'' @ string_of_nat k, k + 1)"

definition port_step :: "string \<times> port \<Rightarrow> conv_state \<Rightarrow> error + conv_state" where
  "port_step = (\<lambda>(pname, p) st.
     let (dname, n') = gen_name (st_n st);
         dev = \<lparr>dev_id = dname, dev_x = 0, dev_y = 0, dev_label = pname,
                dev_order = Some n', dev_type = []\<rparr>
     in if length (bits p) \<noteq> 1 then Inl InvalidPortWidth
        else if direction p = ''input'' then
          bind_err (add_net_source (index0 (bits p)) dname (Some ''out0'') (st_nets st)) (\<lambda>tbl.
            Inr \<lparr>st_n = n', st_nets = tbl,
                 st_devices = st_devices st @ [dev\<lparr>dev_type := ''In''\<rparr>]\<rparr>)
        else if direction p = ''output'' then
          Inr \<lparr>st_n = n', st_nets = add_net_target (index0 (bits p)) dname (Some ''in0'') (st_nets st),
               st_devices = st_devices st @ [dev\<lparr>dev_type := ''Out''\<rparr>]\<rparr>
        else Inl (InvalidPortDirection (direction p)))"

definition display_type :: "string \<Rightarrow> string" where
  "display_type t = (if t = ''$and'' then ''AND'' else if t = ''$or'' then ''OR''
                     else if t = ''$xor'' then ''XOR'' else t)"

definition is_gate :: "string \<Rightarrow> bool" where
  "is_gate t = (t = ''$and'' \<or> t = ''$or'' \<or> t = ''$xor'')"

text \<open>\<^verbatim>\<open>assert(cell.connections.P.length == 1)\<close>: an absent \<open>P\<close> has no \<^verbatim>\<open>length\<close>.\<close>

definition assert_width :: "cell \<Rightarrow> string \<Rightarrow> error + unit" where
  "assert_width c pn = (case map_of (connections c) pn of
                          None \<Rightarrow> Inl TypeError
                        | Some l \<Rightarrow> if length l = 1 then Inr () else Inl InvalidPortWidth)"

text \<open>\<^verbatim>\<open>assert(cell.port_directions.P == dir)\<close>\<close>

definition assert_dir :: "cell \<Rightarrow> string \<Rightarrow> string \<Rightarrow> error + unit" where
  "assert_dir c pn dir = (if map_of (port_directions c) pn = Some dir then Inr () else Inl GateDirection)"

definition check_gate :: "cell \<Rightarrow> error + unit" where
  "check_gate c =
     (if is_gate (cell_type c) then
        bind_err (assert_width c ''A'') (\<lambda>_.
        bind_err (assert_width c ''B'') (\<lambda>_.
        bind_err (assert_width c ''Y'') (\<lambda>_.
        bind_err (assert_dir c ''A'' ''input'') (\<lambda>_.
        bind_err (assert_dir c ''B'' ''input'') (\<lambda>_.
        assert_dir c ''Y'' ''output'')))))
      else Inr ())"

text \<open>
  One turn of \<^verbatim>\<open>for (const pname in cell.port_directions)\<close>.  The arguments of the call
  are evaluated left to right: \<^verbatim>\<open>pconn[0]\<close> first, then \<^verbatim>\<open>portmap[pname]\<close>.
\<close>

definition conn_step ::
  "portmap option \<Rightarrow> (string \<times> nat list) list \<Rightarrow> string \<Rightarrow> string \<times> string \<Rightarrow> nets \<Rightarrow> error + nets" where
  "conn_step pmap conns dname = (\<lambda>(pname, pdir) tbl.
     if pdir = ''input'' then
       (case map_of conns pname of None \<Rightarrow> Inl TypeError
        | Some pconn \<Rightarrow>
           (case pmap of None \<Rightarrow> Inl TypeError
            | Some pm \<Rightarrow> Inr (add_net_target (index0 pconn) dname (pm pname) tbl)))
     else if pdir = ''output'' then
       (case map_of conns pname of None \<Rightarrow> Inl TypeError
        | Some pconn \<Rightarrow>
           (case pmap of None \<Rightarrow> Inl TypeError
            | Some pm \<Rightarrow> add_net_source (index0 pconn) dname (pm pname) tbl))
     else Inl (InvalidPortDirection pdir))"

definition cell_step :: "(string \<rightharpoonup> portmap) \<Rightarrow> string \<times> cell \<Rightarrow> conv_state \<Rightarrow> error + conv_state" where
  "cell_step portmaps = (\<lambda>(cname, c) st.
     let pmap = portmaps (cell_type c);
         (dname, n') = gen_name (st_n st);
         dev = \<lparr>dev_id = dname, dev_x = 0, dev_y = 0, dev_label = cname,
                dev_order = None, dev_type = display_type (cell_type c)\<rparr>
     in bind_err (check_gate c) (\<lambda>_.
        bind_err (fold_err (conn_step pmap (connections c) dname) (port_directions c) (st_nets st)) (\<lambda>tbl.
          Inr \<lparr>st_n = n', st_nets = tbl, st_devices = st_devices st @ [dev]\<rparr>)))"

text \<open>The last loop: one connector for each target of each net.\<close>

definition emit_connectors :: "nets \<Rightarrow> connector list" where
  "emit_connectors tbl =
     concat (map (\<lambda>(k, nt). map (\<lambda>t. \<lparr>conn_from = t, conn_to = source nt\<rparr>) (targets nt)) tbl)"

definition convert_module :: "(string \<rightharpoonup> portmap) \<Rightarrow> module \<Rightarrow> error + diagram" where
  "convert_module portmaps md =
     bind_err (fold_err port_step (ports md) \<lparr>st_n = 0, st_nets = [], st_devices = []\<rparr>) (\<lambda>st1.
     bind_err (fold_err (cell_step portmaps) (cells md) st1) (\<lambda>st2.
       Inr \<lparr>width = 800, height = 500, devices = st_devices st2,
            connectors = emit_connectors (st_nets st2)\<rparr>))"

definition yosys_to_simcir :: "netlist \<Rightarrow> (string \<rightharpoonup> portmap) \<Rightarrow> error + (string \<times> diagram) list" where
  "yosys_to_simcir data portmaps =
     fold_err (\<lambda>(name, md) out. bind_err (convert_module portmaps md) (\<lambda>mout. Inr (out @ [(name, mout)])))
       (modules data) []"

section \<open>\<^verbatim>\<open>layout_circuit\<close>\<close>

text \<open>
  The layout engine (\<^verbatim>\<open>dagre.layout\<close>) is an external package and a parameter of the
  model: given the node names and the edges entered into the graph it gives every node
  its coordinates \<open>(x, y)\<close>.
\<close>

type_synonym layout_engine = "string list \<Rightarrow> (string \<times> string) list \<Rightarrow> string \<Rightarrow> real \<times> real"

text \<open>\<^verbatim>\<open>s.split('.')[0]\<close>\<close>

definition endpoint_device :: "string \<Rightarrow> string" where
  "endpoint_device s = takeWhile (\<lambda>c. c \<noteq> CHR ''.'') s"

text \<open>The edge of a connector; \<^verbatim>\<open>conn.to.split\<close> on an undefined \<^verbatim>\<open>to\<close> is a TypeError.\<close>

definition edge_of :: "connector \<Rightarrow> error + (string \<times> string)" where
  "edge_of c = (case conn_to c of
                  None \<Rightarrow> Inl TypeError
                | Some t \<Rightarrow> Inr (endpoint_device (conn_from c), endpoint_device t))"

definition graph_edges :: "connector list \<Rightarrow> error + (string \<times> string) list" where
  "graph_edges cs = fold_err (\<lambda>c es. bind_err (edge_of c) (\<lambda>e. Inr (es @ [e]))) cs []"

text \<open>The nodes of the graph: each device id once, in the order of the first \<^verbatim>\<open>setNode\<close>.\<close>

definition graph_nodes :: "device list \<Rightarrow> string list" where
  "graph_nodes devs = rev (remdups (rev (map dev_id devs)))"

text \<open>
  \<^verbatim>\<open>devmap[id]\<close> is the last device entered under the id, so that one receives the
  coordinates of the node.
\<close>

fun place_devices :: "(string \<Rightarrow> real \<times> real) \<Rightarrow> device list \<Rightarrow> device list" where
  "place_devices pos [] = []"
| "place_devices pos (d # ds) =
     (if dev_id d \<in> dev_id ` set ds then d
      else d\<lparr>dev_x := fst (pos (dev_id d)), dev_y := snd (pos (dev_id d))\<rparr>) # place_devices pos ds"

text \<open>
  An edge whose end is not a device would add a node without a label, and
  \<^verbatim>\<open>node.id\<close> in the last loop would be a TypeError.
\<close>

definition layout_circuit :: "layout_engine \<Rightarrow> diagram \<Rightarrow> error + diagram" where
  "layout_circuit dagre circ =
     bind_err (graph_edges (connectors circ)) (\<lambda>edges.
       let nodes = graph_nodes (devices circ);
           pos = dagre nodes edges;
           maxx = fold (\<lambda>v m. max m (fst (pos v))) nodes 0;
           maxy = fold (\<lambda>v m. max m (snd (pos v))) nodes 0
       in if list_all (\<lambda>(v, w). v \<in> set nodes \<and> w \<in> set nodes) edges
          then Inr (circ\<lparr>devices := place_devices pos (devices circ),
                         width := maxx + 256, height := maxy + 64\<rparr>)
          else Inl TypeError)"

definition layout_circuits :: "layout_engine \<Rightarrow> (string \<times> diagram) list \<Rightarrow> error + (string \<times> diagram) list" where
  "layout_circuits dagre circs =
     fold_err (\<lambda>(name, circ) out. bind_err (layout_circuit dagre circ) (\<lambda>c. Inr (out @ [(name, c)])))
       circs []"

section \<open>The top level of the script\<close>

text \<open>
  What the script prints after the header: one \<^verbatim>\<open>simcir.registerDevice(x, out[x])\<close>
  for each name left in \<^verbatim>\<open>toporder\<close>, then \<^verbatim>\<open>out[toplevel]\<close> inside the
  \<^verbatim>\<open>simcir\<close> element.  \<open>None\<close> is \<^verbatim>\<open>undefined\<close>: \<^verbatim>\<open>pop\<close> of an empty array, and
  \<^verbatim>\<open>out[x]\<close> for a name that \<^verbatim>\<open>out\<close> does not hold.  The sort (\<^verbatim>\<open>topsort\<close>) is an
  external package and a parameter of the model.
\<close>

datatype item =
    RegisterDevice string "diagram option"
  | TopLevel "string option" "diagram option"

type_synonym sorter = "(string \<times> string) list \<Rightarrow> error + string list"

definition pop :: "'a list \<Rightarrow> 'a option \<times> 'a list" where
  "pop xs = (if xs = [] then (None, []) else (Some (last xs), butlast xs))"

definition emit :: "(string \<times> diagram) list \<Rightarrow> string list \<Rightarrow> item list" where
  "emit out order =
     (let (toplevel, toporder) = pop order
      in map (\<lambda>x. RegisterDevice x (map_of out x)) toporder
         @ [TopLevel toplevel (map_of out (js_str toplevel))])"

definition main :: "sorter \<Rightarrow> layout_engine \<Rightarrow> netlist \<Rightarrow> error + item list" where
  "main topsort dagre obj =
     bind_err (order_ports obj) (\<lambda>portmaps.
     bind_err (yosys_to_simcir obj portmaps) (\<lambda>out0.
     bind_err (layout_circuits dagre out0) (\<lambda>out.
     bind_err (topsort (module_deps obj)) (\<lambda>order.
       Inr (emit out order)))))"

section \<open>Stand-ins for the external packages\<close>

fun position :: "'a \<Rightarrow> 'a list \<Rightarrow> nat" where
  "position a [] = 0"
| "position a (b # bs) = (if a = b then 0 else Suc (position a bs))"

text \<open>
  Modelled from the spec: the package \<^verbatim>\<open>topsort\<close> is not part of the repository.  The
  spec (4.2) asks for a topological sort over the edge set that fails with
  \<open>CyclicDependency\<close> when the sort cannot complete.  This one repeatedly takes the first
  remaining node that no remaining node points to; it is used where a theorem needs the
  script run on a concrete netlist.
\<close>

fun take_sources :: "nat \<Rightarrow> string list \<Rightarrow> (string \<times> string) list \<Rightarrow> error + string list" where
  "take_sources 0 nodes edges = (if nodes = [] then Inr [] else Inl CyclicDependency)"
| "take_sources (Suc fuel) nodes edges =
     (case filter (\<lambda>v. \<not> list_ex (\<lambda>(a, b). b = v \<and> a \<in> set nodes) edges) nodes of
        [] \<Rightarrow> (if nodes = [] then Inr [] else Inl CyclicDependency)
      | v # _ \<Rightarrow> bind_err (take_sources fuel (removeAll v nodes) edges) (\<lambda>rest. Inr (v # rest)))"

definition topsort_ref :: sorter where
  "topsort_ref edges =
     (let nodes = rev (remdups (rev (concat (map (\<lambda>(a, b). [a, b]) edges))))
      in take_sources (length nodes) nodes edges)"

text \<open>
  Modelled from the spec: the package \<^verbatim>\<open>dagre\<close> is not part of the repository.  The spec
  (4.4, 8) asks of a layout only that every node gets non-negative coordinates.  This one
  puts the 32 by 32 boxes in one column, 82 units apart.
\<close>

definition column_layout :: layout_engine where
  "column_layout nodes edges v = (16, 16 + 82 * real (position v nodes))"

section \<open>Definitions used in the statements and proofs\<close>

text \<open>Devices as \<^verbatim>\<open>yosys_to_simcir\<close> leaves them: at the origin.\<close>

definition unplaced :: "device list \<Rightarrow> bool" where
  "unplaced devs = list_all (\<lambda>d. dev_x d = 0 \<and> dev_y d = 0) devs"

text \<open>
  The ports of one direction with their bit index, in the order of declaration; and the
  same as the \<^verbatim>\<open>{name, num}\<close> records that \<^verbatim>\<open>order_ports\<close> collects.
\<close>

definition ports_of :: "string \<Rightarrow> module \<Rightarrow> (string \<times> nat) list" where
  "ports_of dir md =
     map (\<lambda>(pname, p). (pname, hd (bits p))) (filter (\<lambda>(pname, p). direction p = dir) (ports md))"

definition pdata_of :: "string \<Rightarrow> (string \<times> port) list \<Rightarrow> pdata list" where
  "pdata_of dir ps =
     map (\<lambda>(pname, p). (pname, index0 (bits p))) (filter (\<lambda>(pname, p). direction p = dir) ps)"

definition some_num :: "string \<times> nat \<Rightarrow> pdata" where
  "some_num = (\<lambda>(pname, b). (pname, Some b))"

text \<open>The module whose diagram an item of the printed document shows.\<close>

definition item_name :: "item \<Rightarrow> string option" where
  "item_name it = (case it of RegisterDevice x d \<Rightarrow> Some x | TopLevel t d \<Rightarrow> t)"

definition is_register :: "item \<Rightarrow> bool" where
  "is_register it = (case it of RegisterDevice x d \<Rightarrow> True | TopLevel t d \<Rightarrow> False)"

text \<open>Module \<open>user\<close> holds a cell whose type is \<open>used\<close>; some module holds a cell of type \<open>r\<close>.\<close>

definition uses :: "netlist \<Rightarrow> string \<Rightarrow> string \<Rightarrow> bool" where
  "uses data user used =
     list_ex (\<lambda>(name, md). name = user \<and> list_ex (\<lambda>(cname, c). cell_type c = used) (cells md))
       (modules data)"

definition instantiated :: "netlist \<Rightarrow> string \<Rightarrow> bool" where
  "instantiated data r =
     list_ex (\<lambda>(name, md). list_ex (\<lambda>(cname, c). cell_type c = r) (cells md)) (modules data)"

text \<open>
  What is asked of the external sort: the result holds each node of the edges once, and
  the first end of every edge before its second end.
\<close>

definition topological :: "(string \<times> string) list \<Rightarrow> string list \<Rightarrow> bool" where
  "topological edges order =
     (distinct order \<and> set order = fst ` set edges \<union> snd ` set edges
      \<and> list_all (\<lambda>(a, b). position a order < position b order) edges)"

text \<open>
  The registrations a module asks for, read off the netlist alone, with no table and no
  counter (section 4.3 of the spec: an input port drives its net and an output port
  listens to it; a cell drives the nets of its outputs and listens to those of its
  inputs, at the slot the port map of its type gives).  \<open>Driver k d p\<close> enters slot
  \<open>p\<close> of device \<open>d\<close> as the source of net \<open>k\<close>, \<open>Listener k d p\<close> as a target.
  The device of the \<open>i\<close>-th port is \<open>dev\<close>\<open>i\<close>, the devices of the cells follow; a
  cell's registrations are those of its \<^verbatim>\<open>port_directions\<close>, as in the script.  The
  theorems below compare \<^verbatim>\<open>yosys_to_simcir\<close> with this list.
\<close>

datatype reg = Driver netkey string "string option" | Listener netkey string "string option"

definition apply_reg :: "reg \<Rightarrow> nets \<Rightarrow> error + nets" where
  "apply_reg r tbl = (case r of
       Driver k d p \<Rightarrow> add_net_source k d p tbl
     | Listener k d p \<Rightarrow> Inr (add_net_target k d p tbl))"

definition port_reg :: "nat \<Rightarrow> port \<Rightarrow> reg" where
  "port_reg i p =
     (if direction p = ''input'' then Driver (index0 (bits p)) (''dev'' @ string_of_nat i) (Some ''out0'')
      else Listener (index0 (bits p)) (''dev'' @ string_of_nat i) (Some ''in0''))"

fun port_regs :: "nat \<Rightarrow> (string \<times> port) list \<Rightarrow> reg list" where
  "port_regs i [] = []"
| "port_regs i ((pname, p) # rest) = port_reg i p # port_regs (Suc i) rest"

definition conn_reg :: "(string \<rightharpoonup> portmap) \<Rightarrow> nat \<Rightarrow> cell \<Rightarrow> string \<times> string \<Rightarrow> reg" where
  "conn_reg pms i c = (\<lambda>(pname, pdir).
     let key = (case map_of (connections c) pname of None \<Rightarrow> None | Some pconn \<Rightarrow> index0 pconn);
         slot = (case pms (cell_type c) of None \<Rightarrow> None | Some pm \<Rightarrow> pm pname)
     in if pdir = ''output'' then Driver key (''dev'' @ string_of_nat i) slot
        else Listener key (''dev'' @ string_of_nat i) slot)"

fun cell_regs :: "(string \<rightharpoonup> portmap) \<Rightarrow> nat \<Rightarrow> (string \<times> cell) list \<Rightarrow> reg list" where
  "cell_regs pms i [] = []"
| "cell_regs pms i ((cname, c) # rest) =
     map (conn_reg pms i c) (port_directions c) @ cell_regs pms (Suc i) rest"

definition module_regs :: "(string \<rightharpoonup> portmap) \<Rightarrow> module \<Rightarrow> reg list" where
  "module_regs pms md = port_regs 0 (ports md) @ cell_regs pms (length (ports md)) (cells md)"

text \<open>The endpoint \<open>deviceId.slot\<close> of a registration, by net.\<close>

fun drivers :: "reg list \<Rightarrow> (netkey \<times> string) list" where
  "drivers [] = []"
| "drivers (Driver k d p # rs) = (k, d @ ''.'' @ js_str p) # drivers rs"
| "drivers (Listener k d p # rs) = drivers rs"

fun listeners :: "reg list \<Rightarrow> (netkey \<times> string) list" where
  "listeners [] = []"
| "listeners (Driver k d p # rs) = listeners rs"
| "listeners (Listener k d p # rs) = (k, d @ ''.'' @ js_str p) # listeners rs"

text \<open>A module on which nothing but a second driver can stop the conversion.\<close>

definition valid_cell :: "(string \<rightharpoonup> portmap) \<Rightarrow> cell \<Rightarrow> bool" where
  "valid_cell pms c =
     (pms (cell_type c) \<noteq> None \<and> check_gate c = Inr ()
      \<and> list_all (\<lambda>(pname, pdir). (pdir = ''input'' \<or> pdir = ''output'')
                     \<and> map_of (connections c) pname \<noteq> None) (port_directions c))"

definition valid_module :: "(string \<rightharpoonup> portmap) \<Rightarrow> module \<Rightarrow> bool" where
  "valid_module pms md =
     (list_all (\<lambda>(pname, p). length (bits p) = 1 \<and> (direction p = ''input'' \<or> direction p = ''output''))
        (ports md)
      \<and> list_all (\<lambda>(cname, c). valid_cell pms c) (cells md))"

text \<open>The table seen as two functions of the net, and its targets listed with their net.\<close>

definition src :: "nets \<Rightarrow> netkey \<Rightarrow> string option" where
  "src tbl k = (case map_of tbl k of None \<Rightarrow> None | Some nt \<Rightarrow> source nt)"

definition keyed_targets :: "nets \<Rightarrow> (netkey \<times> string) list" where
  "keyed_targets tbl = concat (map (\<lambda>(k, nt). map (Pair k) (targets nt)) tbl)"

section \<open>Concrete netlists\<close>

definition in_port :: "nat \<Rightarrow> port" where
  "in_port b = \<lparr>direction = ''input'', bits = [b]\<rparr>"

definition out_port :: "nat \<Rightarrow> port" where
  "out_port b = \<lparr>direction = ''output'', bits = [b]\<rparr>"

text \<open>A module whose only port is an output that nothing drives.\<close>

definition dangling :: netlist where
  "dangling = \<lparr>modules = [(''top'', \<lparr>ports = [(''y'', out_port 2)], cells = []\<rparr>)]\<rparr>"

text \<open>An inverter: a cell of a type that is neither a module nor one of the three gates.\<close>

definition not_cell :: cell where
  "not_cell = \<lparr>cell_type = ''$not'',
                port_directions = [(''A'', ''input''), (''Y'', ''output'')],
                connections = [(''A'', [2]), (''Y'', [3])]\<rparr>"

definition inverter :: netlist where
  "inverter = \<lparr>modules = [(''top'',
      \<lparr>ports = [(''a'', in_port 2), (''y'', out_port 3)], cells = [(''n'', not_cell)]\<rparr>)]\<rparr>"

text \<open>A buffer module \<open>sub\<close> (its output is its input's net), instantiated by \<open>top\<close>.\<close>

definition sub_module :: module where
  "sub_module = \<lparr>ports = [(''a'', in_port 2), (''y'', out_port 2)], cells = []\<rparr>"

text \<open>The instance names a port \<open>z\<close> that \<open>sub\<close> does not have.\<close>

definition extra_port :: netlist where
  "extra_port = \<lparr>modules =
     [(''sub'', sub_module),
      (''top'', \<lparr>ports = [(''a'', in_port 2), (''y'', out_port 3)],
                 cells = [(''u'', \<lparr>cell_type = ''sub'',
                    port_directions = [(''a'', ''input''), (''y'', ''output''), (''z'', ''input'')],
                    connections = [(''a'', [2]), (''y'', [3]), (''z'', [2])]\<rparr>)]\<rparr>)]\<rparr>"

text \<open>The instance connects the two nets 2 and 5 to the port \<open>a\<close>.\<close>

definition wide_connection :: netlist where
  "wide_connection = \<lparr>modules =
     [(''sub'', sub_module),
      (''top'', \<lparr>ports = [(''a'', in_port 2), (''b'', in_port 5), (''y'', out_port 3)],
                 cells = [(''u'', \<lparr>cell_type = ''sub'',
                    port_directions = [(''a'', ''input''), (''y'', ''output'')],
                    connections = [(''a'', [2, 5]), (''y'', [3])]\<rparr>)]\<rparr>)]\<rparr>"

text \<open>One module: an AND gate between two inputs and an output (the spec's end-to-end example).\<close>

definition and_cell :: cell where
  "and_cell = \<lparr>cell_type = ''$and'',
                port_directions = [(''A'', ''input''), (''B'', ''input''), (''Y'', ''output'')],
                connections = [(''A'', [2]), (''B'', [3]), (''Y'', [4])]\<rparr>"

definition and_module :: module where
  "and_module = \<lparr>ports = [(''a'', in_port 2), (''b'', in_port 3), (''y'', out_port 4)],
                  cells = [(''g'', and_cell)]\<rparr>"

definition single_module :: netlist where
  "single_module = \<lparr>modules = [(''top'', and_module)]\<rparr>"

text \<open>The diagram of \<open>and_module\<close> after \<open>column_layout\<close>.\<close>

definition and_diagram :: diagram where
  "and_diagram = \<lparr>width = 272, height = 326,
     devices =
       [\<lparr>dev_id = ''dev0'', dev_x = 16, dev_y = 16, dev_label = ''a'', dev_order = Some 1, dev_type = ''In''\<rparr>,
        \<lparr>dev_id = ''dev1'', dev_x = 16, dev_y = 98, dev_label = ''b'', dev_order = Some 2, dev_type = ''In''\<rparr>,
        \<lparr>dev_id = ''dev2'', dev_x = 16, dev_y = 180, dev_label = ''y'', dev_order = Some 3, dev_type = ''Out''\<rparr>,
        \<lparr>dev_id = ''dev3'', dev_x = 16, dev_y = 262, dev_label = ''g'', dev_order = None, dev_type = ''AND''\<rparr>],
     connectors =
       [\<lparr>conn_from = ''dev3.in0'', conn_to = Some ''dev0.out0''\<rparr>,
        \<lparr>conn_from = ''dev3.in1'', conn_to = Some ''dev1.out0''\<rparr>,
        \<lparr>conn_from = ''dev2.in0'', conn_to = Some ''dev3.out0''\<rparr>]\<rparr>"

text \<open>\<open>top\<close> instantiates \<open>sub\<close>; \<open>spare\<close> is a third module that neither uses nor is used.\<close>

definition instance_cell :: "string \<Rightarrow> cell" where
  "instance_cell t = \<lparr>cell_type = t, port_directions = [], connections = []\<rparr>"

definition empty_module :: module where
  "empty_module = \<lparr>ports = [], cells = []\<rparr>"

definition user_of :: "string \<Rightarrow> module" where
  "user_of t = \<lparr>ports = [], cells = [(''u'', instance_cell t)]\<rparr>"

definition with_spare :: netlist where
  "with_spare = \<lparr>modules = [(''top'', user_of ''sub''), (''sub'', empty_module), (''spare'', and_module)]\<rparr>"

definition blank :: diagram where
  "blank = \<lparr>width = 256, height = 64, devices = [], connectors = []\<rparr>"

definition box :: "string \<Rightarrow> diagram" where
  "box t = \<lparr>width = 272, height = 80,
     devices = [\<lparr>dev_id = ''dev0'', dev_x = 16, dev_y = 16, dev_label = ''u'', dev_order = None, dev_type = t\<rparr>],
     connectors = []\<rparr>"

text \<open>Two modules \<open>A\<close> and \<open>B\<close> that both instantiate \<open>C\<close>: neither is instantiated.\<close>

definition two_roots :: netlist where
  "two_roots = \<lparr>modules = [(''A'', user_of ''C''), (''B'', user_of ''C''), (''C'', empty_module)]\<rparr>"

text \<open>The spec's example of port ordering: inputs at the bit indices 3, 1, 2 (and one output).\<close>

definition three_inputs_module :: module where
  "three_inputs_module =
     \<lparr>ports = [(''p3'', in_port 3), (''p1'', in_port 1), (''q'', out_port 4), (''p2'', in_port 2)],
      cells = []\<rparr>"

definition three_inputs :: netlist where
  "three_inputs = \<lparr>modules = [(''m'', three_inputs_module)]\<rparr>"

text \<open>\<open>and_module\<close> as \<^verbatim>\<open>yosys_to_simcir\<close> returns it, before layout.\<close>

definition and_converted :: diagram where
  "and_converted = \<lparr>width = 800, height = 500,
     devices =
       [\<lparr>dev_id = ''dev0'', dev_x = 0, dev_y = 0, dev_label = ''a'', dev_order = Some 1, dev_type = ''In''\<rparr>,
        \<lparr>dev_id = ''dev1'', dev_x = 0, dev_y = 0, dev_label = ''b'', dev_order = Some 2, dev_type = ''In''\<rparr>,
        \<lparr>dev_id = ''dev2'', dev_x = 0, dev_y = 0, dev_label = ''y'', dev_order = Some 3, dev_type = ''Out''\<rparr>,
        \<lparr>dev_id = ''dev3'', dev_x = 0, dev_y = 0, dev_label = ''g'', dev_order = None, dev_type = ''AND''\<rparr>],
     connectors =
       [\<lparr>conn_from = ''dev3.in0'', conn_to = Some ''dev0.out0''\<rparr>,
        \<lparr>conn_from = ''dev3.in1'', conn_to = Some ''dev1.out0''\<rparr>,
        \<lparr>conn_from = ''dev2.in0'', conn_to = Some ''dev3.out0''\<rparr>]\<rparr>"

text \<open>The output of the AND gate is wired to net 2, which the input port \<open>a\<close> drives.\<close>

definition two_drivers_module :: module where
  "two_drivers_module =
     \<lparr>ports = [(''a'', in_port 2), (''b'', in_port 3)],
      cells = [(''g'', \<lparr>cell_type = ''$and'',
                 port_directions = [(''A'', ''input''), (''B'', ''input''), (''Y'', ''output'')],
                 connections = [(''A'', [3]), (''B'', [3]), (''Y'', [2])]\<rparr>)]\<rparr>"

definition two_drivers :: netlist where
  "two_drivers = \<lparr>modules = [(''top'', two_drivers_module)]\<rparr>"

definition driven_table :: nets where
  "driven_table = [(Some 2, \<lparr>source = Some ''dev0.out0'', targets = [''dev3.in0'']\<rparr>)]"

section \<open>General lemmas\<close>

lemma bind_err_Inr: "bind_err r f = Inr v \<longleftrightarrow> (\<exists>u. r = Inr u \<and> f u = Inr v)"
  by (cases r) (auto simp: bind_err_def)

lemma fold_err_collect:
  "fold_err (\<lambda>(name, x) out. bind_err (g x) (\<lambda>c. Inr (out @ [(name, c)]))) xs acc = Inr out
   \<Longrightarrow> \<exists>zs. out = acc @ zs \<and> list_all2 (\<lambda>(n, x) (n', c). n = n' \<and> g x = Inr c) xs zs"
proof (induction xs arbitrary: acc)
  case Nil
  then show ?case by simp
next
  case (Cons a xs)
  obtain n x where a: "a = (n, x)" by (cases a)
  from Cons.prems a obtain c where c: "g x = Inr c"
    and rest: "fold_err (\<lambda>(name, x) out. bind_err (g x) (\<lambda>c. Inr (out @ [(name, c)]))) xs (acc @ [(n, c)]) = Inr out"
    by (cases "g x") (auto simp: bind_err_def)
  from Cons.IH[OF rest] obtain zs where "out = (acc @ [(n, c)]) @ zs"
    and "list_all2 (\<lambda>(n, x) (n', c). n = n' \<and> g x = Inr c) xs zs" by blast
  then show ?case using a c by (intro exI[of _ "(n, c) # zs"]) simp
qed

lemma fold_err_collect_mem:
  assumes "fold_err (\<lambda>(name, x) out. bind_err (g x) (\<lambda>c. Inr (out @ [(name, c)]))) xs [] = Inr out"
    and "(n, c) \<in> set out"
  shows "\<exists>x. (n, x) \<in> set xs \<and> g x = Inr c"
proof -
  from fold_err_collect[OF assms(1)] have "list_all2 (\<lambda>(n, x) (n', c). n = n' \<and> g x = Inr c) xs out"
    by simp
  with assms(2) obtain i where "i < length xs" "(case xs ! i of (n', x) \<Rightarrow> n' = n \<and> g x = Inr c)"
    by (auto simp: list_all2_conv_all_nth in_set_conv_nth split: prod.splits)
  then show ?thesis by (cases "xs ! i") (auto simp: in_set_conv_nth)
qed

lemma fold_err_invariant:
  assumes "fold_err f xs s = Inr s'" and "P s"
    and "\<And>a t t'. a \<in> set xs \<Longrightarrow> P t \<Longrightarrow> f a t = Inr t' \<Longrightarrow> P t'"
  shows "P s'"
  using assms
proof (induction xs arbitrary: s)
  case Nil
  then show ?case by simp
next
  case (Cons a xs)
  from Cons.prems(1) obtain t where t: "f a s = Inr t" and rest: "fold_err f xs t = Inr s'"
    by (cases "f a s") auto
  have "P t" using Cons.prems(2) t by (rule Cons.prems(3)[of a, simplified])
  show ?case
  proof (rule Cons.IH[OF rest \<open>P t\<close>])
    fix b u u'
    assume "b \<in> set xs" "P u" "f b u = Inr u'"
    then show "P u'" using Cons.prems(3)[of b u u'] by simp
  qed
qed

lemma fold_err_append:
  "fold_err f (xs @ ys) s = bind_err (fold_err f xs s) (fold_err f ys)"
  by (induction xs arbitrary: s) (auto simp: bind_err_def split: sum.splits)

lemma fold_err_Inl:
  "fold_err f xs s = Inl e \<Longrightarrow> \<exists>a \<in> set xs. \<exists>t. f a t = Inl e"
proof (induction xs arbitrary: s)
  case Nil
  then show ?case by simp
next
  case (Cons a xs)
  show ?case
  proof (cases "f a s")
    case (Inl e')
    with Cons.prems show ?thesis by auto
  next
    case (Inr t)
    with Cons.prems have "fold_err f xs t = Inl e" by simp
    from Cons.IH[OF this] show ?thesis by auto
  qed
qed

section \<open>C1: a net without a driver\<close>

text \<open>
  C1 (the code does otherwise): a net with a listener and no driver does not stop the
  conversion with an UnresolvedNet error.  For \<open>dangling\<close>, \<^verbatim>\<open>yosys_to_simcir\<close> returns
  the connector of the output port with an undefined \<^verbatim>\<open>to\<close>; the script then ends in
  \<^verbatim>\<open>layout_circuit\<close> with the TypeError of \<^verbatim>\<open>conn.to.split\<close>.
\<close>

theorem dangling_net_connector_undefined:
  "bind_err (order_ports dangling) (yosys_to_simcir dangling) =
     Inr [(''top'', \<lparr>width = 800, height = 500,
       devices = [\<lparr>dev_id = ''dev0'', dev_x = 0, dev_y = 0, dev_label = ''y'',
                   dev_order = Some 1, dev_type = ''Out''\<rparr>],
       connectors = [\<lparr>conn_from = ''dev0.in0'', conn_to = None\<rparr>]\<rparr>)]
   \<and> main topsort_ref column_layout dangling = Inl TypeError"
  by code_simp

section \<open>C2: cells of an unknown type\<close>

text \<open>
  C2 (the code does otherwise): a cell of an unknown type is not passed through.  The
  port map of the type is undefined, and the first connection of the cell reads a
  property of it: the conversion of \<open>inverter\<close> ends with a TypeError.
\<close>

theorem unknown_cell_type_fails:
  "bind_err (order_ports inverter) (yosys_to_simcir inverter) = Inl TypeError
   \<and> main topsort_ref column_layout inverter = Inl TypeError"
  by code_simp

section \<open>C3: the order of emission\<close>

lemma set_module_deps:
  "set (module_deps data) =
     (\<Union>x \<in> set (modules data). \<Union>y \<in> set (cells (snd x)).
        if cell_type (snd y) \<in> fst ` set (modules data) then {(cell_type (snd y), fst x)} else {})"
  unfolding module_deps_def set_concat set_map image_image case_prod_beta
  by (intro SUP_cong refl) simp

lemma in_module_deps:
  "(a, b) \<in> set (module_deps data) \<longleftrightarrow>
     (\<exists>md cname c. (b, md) \<in> set (modules data) \<and> (cname, c) \<in> set (cells md)
        \<and> cell_type c = a \<and> a \<in> fst ` set (modules data))"
  unfolding set_module_deps by (force split: if_splits)

lemma uses_edge:
  "uses data user used \<Longrightarrow> used \<in> fst ` set (modules data) \<Longrightarrow> (used, user) \<in> set (module_deps data)"
  unfolding in_module_deps by (auto simp: uses_def list_ex_iff)

lemma instantiated_edge:
  "instantiated data r \<Longrightarrow> r \<in> fst ` set (modules data) \<Longrightarrow> \<exists>u. (r, u) \<in> set (module_deps data)"
  unfolding in_module_deps by (auto simp: instantiated_def list_ex_iff)

lemma module_deps_names:
  "(a, b) \<in> set (module_deps data) \<Longrightarrow> a \<in> fst ` set (modules data) \<and> b \<in> fst ` set (modules data)"
  unfolding in_module_deps by force

lemma position_less: "a \<in> set xs \<Longrightarrow> position a xs < length xs"
  by (induction xs) auto

lemma position_map_inj: "inj f \<Longrightarrow> position (f a) (map f xs) = position a xs"
  by (induction xs) (auto dest: injD)

lemma position_last: "distinct xs \<Longrightarrow> xs \<noteq> [] \<Longrightarrow> position (last xs) xs = length xs - 1"
proof (induction xs)
  case Nil
  then show ?case by simp
next
  case (Cons a xs)
  show ?case
  proof (cases "xs = []")
    case True
    then show ?thesis by simp
  next
    case False
    with Cons.prems have "last xs \<noteq> a" by auto
    with Cons False show ?thesis by simp
  qed
qed

lemma emit_names: "order \<noteq> [] \<Longrightarrow> map item_name (emit out order) = map Some order"
proof -
  assume ne: "order \<noteq> []"
  then have "map item_name (emit out order) = map Some (butlast order) @ [Some (last order)]"
    by (simp add: emit_def pop_def item_name_def comp_def)
  also have "\<dots> = map Some (butlast order @ [last order])" by simp
  also have "butlast order @ [last order] = order" using ne by simp
  finally show ?thesis .
qed

lemma emit_last:
  "order \<noteq> [] \<Longrightarrow> last (emit out order) = TopLevel (Some (last order)) (map_of out (last order))
     \<and> list_all is_register (butlast (emit out order))"
  by (simp add: emit_def pop_def js_str_def is_register_def list_all_iff)

lemma main_Inr:
  assumes "main topsort dagre data = Inr doc"
  shows "\<exists>out order. topsort (module_deps data) = Inr order \<and> doc = emit out order"
  using assms unfolding main_def bind_err_Inr by blast

text \<open>
  C3 (as amended).  The sort returning a topological order of the dependency edges, in the
  printed document every module \<open>used\<close> that a module \<open>user\<close> instantiates stands
  strictly before \<open>user\<close>; and, when at least one module instantiates another, the
  document ends with the one top-level diagram, after registrations only, and it is the
  diagram of a module that no module instantiates (the root, when there is only one such
  module).
\<close>

theorem emission_order:
  assumes "main topsort dagre data = Inr doc"
    and "\<forall>order. topsort (module_deps data) = Inr order \<longrightarrow> topological (module_deps data) order"
  shows "(\<forall>user used. uses data user used \<and> used \<in> fst ` set (modules data) \<longrightarrow>
            Some used \<in> set (map item_name doc) \<and> Some user \<in> set (map item_name doc)
          \<and> position (Some used) (map item_name doc) < position (Some user) (map item_name doc))
       \<and> (module_deps data \<noteq> [] \<longrightarrow>
            list_all is_register (butlast doc)
          \<and> (\<exists>r d. last doc = TopLevel (Some r) d \<and> r \<in> fst ` set (modules data)
                    \<and> \<not> instantiated data r))"
proof -
  from main_Inr[OF assms(1)] obtain out order where
    ts: "topsort (module_deps data) = Inr order" and doc: "doc = emit out order" by blast
  from assms(2) ts have "topological (module_deps data) order" by blast
  then have dist: "distinct order"
    and nodes: "set order = fst ` set (module_deps data) \<union> snd ` set (module_deps data)"
    and before: "\<And>a b. (a, b) \<in> set (module_deps data) \<Longrightarrow> position a order < position b order"
    by (auto simp: topological_def list_all_iff)
  have names: "map item_name doc = map Some order" if "order \<noteq> []"
    using that doc by (simp add: emit_names)
  have pos: "position (Some a) (map Some order) = position a order" for a :: string
    by (rule position_map_inj) simp
  have first: "Some used \<in> set (map item_name doc) \<and> Some user \<in> set (map item_name doc)
          \<and> position (Some used) (map item_name doc) < position (Some user) (map item_name doc)"
    if "uses data user used" "used \<in> fst ` set (modules data)" for user used
  proof -
    from uses_edge[OF that] have e: "(used, user) \<in> set (module_deps data)" .
    then have "used \<in> set order" "user \<in> set order" unfolding nodes by force+
    moreover from this have "order \<noteq> []" by auto
    ultimately show ?thesis using before[OF e] by (simp add: names pos)
  qed
  have second: "list_all is_register (butlast doc)
          \<and> (\<exists>r d. last doc = TopLevel (Some r) d \<and> r \<in> fst ` set (modules data)
                    \<and> \<not> instantiated data r)"
    if "module_deps data \<noteq> []"
  proof -
    from that obtain a b where "(a, b) \<in> set (module_deps data)" by (cases "module_deps data") auto
    then have "a \<in> set order" unfolding nodes by force
    then have ne: "order \<noteq> []" by auto
    let ?r = "last order"
    have "?r \<in> set order" using ne by simp
    then have rn: "?r \<in> fst ` set (modules data)"
      unfolding nodes using module_deps_names[of _ _ data] by auto
    have "\<not> instantiated data ?r"
    proof
      assume "instantiated data ?r"
      from instantiated_edge[OF this rn] obtain u where e: "(?r, u) \<in> set (module_deps data)" by blast
      then have "u \<in> set order" unfolding nodes by force
      then have "position u order < length order" by (rule position_less)
      moreover have "position ?r order = length order - 1" using dist ne by (rule position_last)
      ultimately show False using before[OF e] by simp
    qed
    with rn emit_last[OF ne, of out] show ?thesis unfolding doc by blast
  qed
  from first second show ?thesis by blast
qed

theorem emission_order_witness:
  "main topsort_ref column_layout with_spare
     = Inr [RegisterDevice ''sub'' (Some blank), TopLevel (Some ''top'') (Some (box ''sub''))]
   \<and> topological (module_deps with_spare) [''sub'', ''top'']
   \<and> uses with_spare ''top'' ''sub''
   \<and> position (Some ''sub'') [Some ''sub'', Some ''top''] < position (Some ''top'') [Some ''sub'', Some ''top'']
   \<and> \<not> instantiated with_spare ''top''"
proof -
  let ?doc = "[RegisterDevice ''sub'' (Some blank), TopLevel (Some ''top'') (Some (box ''sub''))]"
  have run: "main topsort_ref column_layout with_spare = Inr ?doc" by code_simp
  have ts: "topsort_ref (module_deps with_spare) = Inr [''sub'', ''top'']" by code_simp
  have topo: "topological (module_deps with_spare) [''sub'', ''top'']" by code_simp
  have hyp: "\<forall>order. topsort_ref (module_deps with_spare) = Inr order
               \<longrightarrow> topological (module_deps with_spare) order"
    using topo by (simp add: ts)
  have u: "uses with_spare ''top'' ''sub''" by code_simp
  have n: "''sub'' \<in> fst ` set (modules with_spare)" by (simp add: with_spare_def)
  have e: "module_deps with_spare \<noteq> []" by code_simp
  have names: "map item_name ?doc = [Some ''sub'', Some ''top'']" by (simp add: item_name_def)
  note t = emission_order[OF run hyp]
  from t u n have "position (Some ''sub'') (map item_name ?doc) < position (Some ''top'') (map item_name ?doc)"
    by blast
  then have p: "position (Some ''sub'') [Some ''sub'', Some ''top''] < position (Some ''top'') [Some ''sub'', Some ''top'']"
    unfolding names .
  from t e obtain r d where "last ?doc = TopLevel (Some r) d" "\<not> instantiated with_spare r" by blast
  then have "\<not> instantiated with_spare ''top''" by simp
  with run topo u p show ?thesis by blast
qed

text \<open>
  C3 as stated fails where two modules are not instantiated: in \<open>two_roots\<close> neither
  \<open>A\<close> nor \<open>B\<close> is, the sort gives C, A, B, and \<open>A\<close> is registered before the
  top-level diagram, which is that of \<open>B\<close> (any topological order of the two edges
  puts one of \<open>A\<close>, \<open>B\<close> before the last place).
\<close>

theorem two_roots_counterexample:
  "main topsort_ref column_layout two_roots
     = Inr [RegisterDevice ''C'' (Some blank), RegisterDevice ''A'' (Some (box ''C'')),
            TopLevel (Some ''B'') (Some (box ''C''))]
   \<and> topological (module_deps two_roots) [''C'', ''A'', ''B'']
   \<and> ''A'' \<in> fst ` set (modules two_roots) \<and> \<not> instantiated two_roots ''A''
   \<and> ''B'' \<in> fst ` set (modules two_roots) \<and> \<not> instantiated two_roots ''B''"
  by code_simp

section \<open>C4 and C6: registrations and the net table\<close>

lemma map_of_insert_net:
  "map_of tbl k = None \<Longrightarrow> map_of (insert_net k tbl) = (map_of tbl)(k \<mapsto> \<lparr>source = None, targets = []\<rparr>)"
proof (induction tbl)
  case Nil
  then show ?case by simp
next
  case (Cons a tbl)
  obtain k' v where a: "a = (k', v)" by (cases a)
  with Cons.prems have ne: "k' \<noteq> k" and n: "map_of tbl k = None" by (auto split: if_splits)
  show ?case using Cons.IH[OF n] a ne by (auto simp: fun_upd_twist)
qed

lemma keys_insert_net: "set (map fst (insert_net k tbl)) = insert k (set (map fst tbl))"
proof (induction tbl)
  case Nil
  then show ?case by simp
next
  case (Cons a tbl)
  obtain k' v where a: "a = (k', v)" by (cases a)
  show ?case
  proof (cases "key_before k k'")
    case True
    then show ?thesis using a by simp
  next
    case False
    then have "insert_net k (a # tbl) = (k', v) # insert_net k tbl" using a by simp
    then show ?thesis using Cons.IH a by auto
  qed
qed

lemma distinct_insert_net:
  "distinct (map fst tbl) \<Longrightarrow> k \<notin> set (map fst tbl) \<Longrightarrow> distinct (map fst (insert_net k tbl))"
proof (induction tbl)
  case Nil
  then show ?case by simp
next
  case (Cons a tbl)
  obtain k' v where a: "a = (k', v)" by (cases a)
  show ?case
  proof (cases "key_before k k'")
    case True
    then show ?thesis using a Cons.prems by simp
  next
    case False
    then have e: "insert_net k (a # tbl) = (k', v) # insert_net k tbl" using a by simp
    have "k' \<notin> set (map fst (insert_net k tbl))"
      unfolding keys_insert_net using Cons.prems a by auto
    moreover have "distinct (map fst (insert_net k tbl))" using Cons by simp
    ultimately show ?thesis unfolding e by simp
  qed
qed

lemma keyed_insert_net: "mset (keyed_targets (insert_net k tbl)) = mset (keyed_targets tbl)"
  by (induction tbl) (auto simp: keyed_targets_def)

lemma keyed_update_targets:
  "distinct (map fst tbl) \<Longrightarrow> map_of tbl k = Some nt \<Longrightarrow>
   mset (keyed_targets (AList.update k (nt\<lparr>targets := targets nt @ [e]\<rparr>) tbl))
     = add_mset (k, e) (mset (keyed_targets tbl))"
proof (induction tbl)
  case Nil
  then show ?case by simp
next
  case (Cons a tbl)
  obtain key entry where pair: "a = (key, entry)" by (cases a)
  show ?case
  proof (cases "key = k")
    case True
    with Cons.prems pair have "entry = nt" by simp
    with True pair show ?thesis by (simp add: keyed_targets_def)
  next
    case False
    with Cons.prems pair have "map_of tbl k = Some nt" "distinct (map fst tbl)" by auto
    from Cons.IH[OF this(2,1)] False pair show ?thesis by (simp add: keyed_targets_def)
  qed
qed

lemma keyed_update_source:
  "map_of tbl k = Some nt \<Longrightarrow>
   keyed_targets (AList.update k (nt\<lparr>source := s\<rparr>) tbl) = keyed_targets tbl"
proof (induction tbl)
  case Nil
  then show ?case by simp
next
  case (Cons a tbl)
  obtain key entry where pair: "a = (key, entry)" by (cases a)
  show ?case
  proof (cases "key = k")
    case True
    with Cons.prems pair have "entry = nt" by simp
    with True pair show ?thesis by (simp add: keyed_targets_def)
  next
    case False
    with Cons.prems pair have "map_of tbl k = Some nt" by auto
    from Cons.IH[OF this] False pair show ?thesis by (simp add: keyed_targets_def)
  qed
qed

lemma get_net_new:
  assumes "distinct (map fst tbl)" and "map_of tbl k = None"
  shows "get_net k tbl = (\<lparr>source = None, targets = []\<rparr>, insert_net k tbl)"
    and "distinct (map fst (insert_net k tbl))"
    and "map_of (insert_net k tbl) k = Some \<lparr>source = None, targets = []\<rparr>"
    and "src (insert_net k tbl) = src tbl"
    and "src tbl k = None"
proof -
  show "get_net k tbl = (\<lparr>source = None, targets = []\<rparr>, insert_net k tbl)"
    using assms(2) by (simp add: get_net_def)
  have "k \<notin> set (map fst tbl)" using assms(2) by (simp add: map_of_eq_None_iff)
  then show "distinct (map fst (insert_net k tbl))" using assms(1) by (rule distinct_insert_net[rotated])
  show "map_of (insert_net k tbl) k = Some \<lparr>source = None, targets = []\<rparr>"
    by (simp add: map_of_insert_net[OF assms(2)])
  show "src tbl k = None" using assms(2) by (simp add: src_def)
  show "src (insert_net k tbl) = src tbl"
    using assms(2) by (auto simp: src_def map_of_insert_net[OF assms(2)])
qed

lemma get_net_props:
  assumes "distinct (map fst tbl)" and "get_net k tbl = (nt, tbl')"
  shows "distinct (map fst tbl')" and "map_of tbl' k = Some nt"
    and "src tbl' = src tbl" and "mset (keyed_targets tbl') = mset (keyed_targets tbl)"
    and "source nt = src tbl k"
proof -
  have "distinct (map fst tbl') \<and> map_of tbl' k = Some nt \<and> src tbl' = src tbl
      \<and> mset (keyed_targets tbl') = mset (keyed_targets tbl) \<and> source nt = src tbl k"
  proof (cases "map_of tbl k")
    case None
    note n = get_net_new[OF assms(1) None]
    from n(1) assms(2) have e: "nt = \<lparr>source = None, targets = []\<rparr>" "tbl' = insert_net k tbl"
      by simp_all
    show ?thesis unfolding e using n(2-5) by (simp add: keyed_insert_net)
  next
    case (Some a)
    then have e: "nt = a" "tbl' = tbl" using assms(2) by (simp_all add: get_net_def)
    show ?thesis unfolding e using assms(1) Some by (simp add: src_def)
  qed
  then show "distinct (map fst tbl')" and "map_of tbl' k = Some nt"
    and "src tbl' = src tbl" and "mset (keyed_targets tbl') = mset (keyed_targets tbl)"
    and "source nt = src tbl k" by blast+
qed

lemma add_net_target_props:
  assumes "distinct (map fst tbl)"
  shows "distinct (map fst (add_net_target k d p tbl))"
    and "src (add_net_target k d p tbl) = src tbl"
    and "mset (keyed_targets (add_net_target k d p tbl))
           = add_mset (k, d @ ''.'' @ js_str p) (mset (keyed_targets tbl))"
proof -
  obtain nt tbl' where g: "get_net k tbl = (nt, tbl')" by (cases "get_net k tbl")
  note p = get_net_props[OF assms g]
  have e: "add_net_target k d p tbl = AList.update k (nt\<lparr>targets := targets nt @ [d @ ''.'' @ js_str p]\<rparr>) tbl'"
    by (simp add: add_net_target_def g)
  show "distinct (map fst (add_net_target k d p tbl))"
    unfolding e using p(1) by (rule distinct_update)
  show "src (add_net_target k d p tbl) = src tbl"
  proof
    fix k'
    show "src (add_net_target k d p tbl) k' = src tbl k'"
    proof (cases "k' = k")
      case True
      then show ?thesis unfolding e using p(5) by (simp add: src_def update_conv')
    next
      case False
      then have "src (add_net_target k d p tbl) k' = src tbl' k'"
        unfolding e by (simp add: src_def update_conv')
      then show ?thesis using p(3) by simp
    qed
  qed
  show "mset (keyed_targets (add_net_target k d p tbl))
           = add_mset (k, d @ ''.'' @ js_str p) (mset (keyed_targets tbl))"
    unfolding e using keyed_update_targets[OF p(1,2)] p(4) by simp
qed

lemma add_net_source_driven:
  assumes "src tbl k \<noteq> None"
  shows "add_net_source k d p tbl = Inl MultipleDrivers"
proof -
  from assms obtain nt where "map_of tbl k = Some nt" "source nt \<noteq> None"
    by (auto simp: src_def split: option.splits)
  then show ?thesis by (simp add: add_net_source_def get_net_def)
qed

lemma add_net_source_free:
  assumes "distinct (map fst tbl)" and "src tbl k = None"
  shows "\<exists>tbl'. add_net_source k d p tbl = Inr tbl' \<and> distinct (map fst tbl')
           \<and> src tbl' = (src tbl)(k \<mapsto> d @ ''.'' @ js_str p)
           \<and> mset (keyed_targets tbl') = mset (keyed_targets tbl)"
proof -
  obtain nt tbl1 where g: "get_net k tbl = (nt, tbl1)" by (cases "get_net k tbl")
  note p = get_net_props[OF assms(1) g]
  let ?t = "AList.update k (nt\<lparr>source := Some (d @ ''.'' @ js_str p)\<rparr>) tbl1"
  have "source nt = None" using p(5) assms(2) by simp
  then have "add_net_source k d p tbl = Inr ?t" by (simp add: add_net_source_def g)
  moreover have "distinct (map fst ?t)" using p(1) by (rule distinct_update)
  moreover have "src ?t = (src tbl)(k \<mapsto> d @ ''.'' @ js_str p)"
  proof
    fix k'
    have "src ?t k' = src tbl1 k'" if "k' \<noteq> k" using that by (simp add: src_def update_conv')
    moreover have "src ?t k = Some (d @ ''.'' @ js_str p)" by (simp add: src_def update_conv')
    ultimately show "src ?t k' = ((src tbl)(k \<mapsto> d @ ''.'' @ js_str p)) k'"
      using p(3) by (cases "k' = k") simp_all
  qed
  moreover have "mset (keyed_targets ?t) = mset (keyed_targets tbl)"
    using keyed_update_source[OF p(2)] p(4) by simp
  ultimately show ?thesis by blast
qed

lemma add_net_source_Inl: "add_net_source k d p tbl = Inl e \<Longrightarrow> e = MultipleDrivers"
  by (auto simp: add_net_source_def Let_def split: prod.splits if_splits)

lemma emit_connectors_keyed:
  assumes "distinct (map fst tbl)"
  shows "emit_connectors tbl
           = map (\<lambda>(k, t). \<lparr>conn_from = t, conn_to = src tbl k\<rparr>) (keyed_targets tbl)"
proof -
  let ?F = "\<lambda>(k, t). \<lparr>conn_from = t, conn_to = src tbl k\<rparr>"
  have "(case x of (k, nt) \<Rightarrow> map (\<lambda>t. \<lparr>conn_from = t, conn_to = source nt\<rparr>) (targets nt))
          = (map ?F \<circ> (\<lambda>(k, nt). map (Pair k) (targets nt))) x"
    if "x \<in> set tbl" for x
  proof -
    obtain k nt where x: "x = (k, nt)" by (cases x)
    with that assms have "map_of tbl k = Some nt" by simp
    then show ?thesis unfolding x by (simp add: src_def comp_def)
  qed
  then have "map (\<lambda>(k, nt). map (\<lambda>t. \<lparr>conn_from = t, conn_to = source nt\<rparr>) (targets nt)) tbl
       = map (map ?F \<circ> (\<lambda>(k, nt). map (Pair k) (targets nt))) tbl"
    by (intro map_cong refl)
  then show ?thesis
    unfolding emit_connectors_def keyed_targets_def map_concat map_map by (simp only:)
qed

lemma apply_regs_props:
  assumes "fold_err apply_reg regs tbl0 = Inr tbl" and "distinct (map fst tbl0)"
  shows "distinct (map fst tbl)
     \<and> distinct (map fst (drivers regs))
     \<and> (\<forall>k \<in> set (map fst (drivers regs)). src tbl0 k = None)
     \<and> (\<forall>k. src tbl k = (case src tbl0 k of Some e \<Rightarrow> Some e | None \<Rightarrow> map_of (drivers regs) k))
     \<and> mset (keyed_targets tbl) = mset (keyed_targets tbl0) + mset (listeners regs)"
  using assms
proof (induction regs arbitrary: tbl0)
  case Nil
  then show ?case by (auto split: option.splits)
next
  case (Cons r regs)
  from Cons.prems(1) obtain tbl1 where r: "apply_reg r tbl0 = Inr tbl1"
    and rest: "fold_err apply_reg regs tbl1 = Inr tbl"
    by (cases "apply_reg r tbl0") auto
  show ?case
  proof (cases r)
    case (Driver k d p)
    with r have a: "add_net_source k d p tbl0 = Inr tbl1" by (simp add: apply_reg_def)
    have free: "src tbl0 k = None"
      using a add_net_source_driven[of tbl0 k d p] by (cases "src tbl0 k") auto
    from add_net_source_free[OF Cons.prems(2) free, of d p] a
    have d1: "distinct (map fst tbl1)"
      and s1: "src tbl1 = (src tbl0)(k \<mapsto> d @ ''.'' @ js_str p)"
      and t1: "mset (keyed_targets tbl1) = mset (keyed_targets tbl0)" by auto
    note ih = Cons.IH[OF rest d1]
    have nk: "k \<notin> set (map fst (drivers regs))" using ih s1 by auto
    have others: "\<forall>k' \<in> set (map fst (drivers regs)). src tbl0 k' = None"
    proof
      fix k' assume k': "k' \<in> set (map fst (drivers regs))"
      with ih have "src tbl1 k' = None" by blast
      moreover from k' nk have "k' \<noteq> k" by auto
      ultimately show "src tbl0 k' = None" using s1 by simp
    qed
    have srcs: "src tbl k' = (case src tbl0 k' of Some e \<Rightarrow> Some e
                 | None \<Rightarrow> map_of (drivers (r # regs)) k')" for k'
    proof (cases "k' = k")
      case True
      with ih s1 free Driver show ?thesis by simp
    next
      case False
      with ih s1 Driver show ?thesis by (simp split: option.splits)
    qed
    from ih nk others srcs t1 Driver free show ?thesis by simp
  next
    case (Listener k d p)
    with r have a: "tbl1 = add_net_target k d p tbl0" by (simp add: apply_reg_def)
    note p = add_net_target_props[OF Cons.prems(2), of k d p]
    note ih = Cons.IH[OF rest p(1)[folded a]]
    have dr: "drivers (r # regs) = drivers regs"
      and li: "listeners (r # regs) = (k, d @ ''.'' @ js_str p) # listeners regs"
      using Listener by simp_all
    from ih p(2,3) a show ?thesis unfolding dr li by simp
  qed
qed

lemma gen_name_eq: "gen_name i = (''dev'' @ string_of_nat i, Suc i)"
  by (simp add: gen_name_def)

lemma port_step_reg:
  assumes "port_step (pname, p) st = Inr st'"
  shows "apply_reg (port_reg (st_n st) p) (st_nets st) = Inr (st_nets st') \<and> st_n st' = Suc (st_n st)"
proof (cases "direction p = ''input''")
  case True
  with assms show ?thesis
    by (auto simp: port_step_def gen_name_eq Let_def bind_err_Inr apply_reg_def port_reg_def
        split: if_splits)
next
  case False
  with assms have "direction p = ''output''"
    by (auto simp: port_step_def gen_name_eq Let_def split: if_splits)
  with assms show ?thesis
    by (auto simp: port_step_def gen_name_eq Let_def apply_reg_def port_reg_def split: if_splits)
qed

lemma ports_refine:
  "fold_err port_step ps st = Inr st' \<Longrightarrow>
   fold_err apply_reg (port_regs (st_n st) ps) (st_nets st) = Inr (st_nets st')
     \<and> st_n st' = st_n st + length ps"
proof (induction ps arbitrary: st)
  case Nil
  then show ?case by simp
next
  case (Cons a ps)
  obtain pname p where a: "a = (pname, p)" by (cases a)
  from Cons.prems a obtain st1 where s: "port_step (pname, p) st = Inr st1"
    and rest: "fold_err port_step ps st1 = Inr st'"
    by (cases "port_step (pname, p) st") auto
  from port_step_reg[OF s] Cons.IH[OF rest] a show ?case by simp
qed

lemma conn_step_reg:
  assumes "conn_step (pms (cell_type c)) (connections c) (''dev'' @ string_of_nat i) (pname, pdir) tbl
             = Inr tbl'"
  shows "apply_reg (conn_reg pms i c (pname, pdir)) tbl = Inr tbl'"
proof (cases "pdir = ''output''")
  case True
  with assms show ?thesis
    by (auto simp: conn_step_def conn_reg_def apply_reg_def split: option.splits)
next
  case False
  with assms have "pdir = ''input''" by (auto simp: conn_step_def split: if_splits)
  with assms show ?thesis
    by (auto simp: conn_step_def conn_reg_def apply_reg_def split: option.splits)
qed

lemma conns_refine:
  "fold_err (conn_step (pms (cell_type c)) (connections c) (''dev'' @ string_of_nat i)) dirs tbl = Inr tbl'
   \<Longrightarrow> fold_err apply_reg (map (conn_reg pms i c) dirs) tbl = Inr tbl'"
proof (induction dirs arbitrary: tbl)
  case Nil
  then show ?case by simp
next
  case (Cons a dirs)
  obtain pname pdir where a: "a = (pname, pdir)" by (cases a)
  let ?f = "conn_step (pms (cell_type c)) (connections c) (''dev'' @ string_of_nat i)"
  from Cons.prems a obtain tbl1 where s: "?f (pname, pdir) tbl = Inr tbl1"
    and rest: "fold_err ?f dirs tbl1 = Inr tbl'"
    by (cases "?f (pname, pdir) tbl") auto
  from conn_step_reg[of pms c i pname pdir tbl tbl1, OF s] Cons.IH[OF rest] a show ?case by simp
qed

lemma cell_step_reg:
  assumes "cell_step pms (cname, c) st = Inr st'"
  shows "fold_err apply_reg (map (conn_reg pms (st_n st) c) (port_directions c)) (st_nets st)
           = Inr (st_nets st') \<and> st_n st' = Suc (st_n st)"
proof -
  from assms obtain tbl where
    "fold_err (conn_step (pms (cell_type c)) (connections c) (''dev'' @ string_of_nat (st_n st)))
       (port_directions c) (st_nets st) = Inr tbl"
    and "st_nets st' = tbl" "st_n st' = Suc (st_n st)"
    by (auto simp: cell_step_def gen_name_eq Let_def bind_err_Inr)
  with conns_refine[of pms c "st_n st" "port_directions c" "st_nets st" tbl] show ?thesis by simp
qed

lemma cells_refine:
  "fold_err (cell_step pms) cs st = Inr st' \<Longrightarrow>
   fold_err apply_reg (cell_regs pms (st_n st) cs) (st_nets st) = Inr (st_nets st')"
proof (induction cs arbitrary: st)
  case Nil
  then show ?case by simp
next
  case (Cons a cs)
  obtain cname c where a: "a = (cname, c)" by (cases a)
  from Cons.prems a obtain st1 where s: "cell_step pms (cname, c) st = Inr st1"
    and rest: "fold_err (cell_step pms) cs st1 = Inr st'"
    by (cases "cell_step pms (cname, c) st") auto
  from cell_step_reg[OF s] Cons.IH[OF rest] a show ?case
    by (simp add: fold_err_append bind_err_def)
qed

lemma convert_refine:
  assumes "convert_module pms md = Inr circ"
  shows "\<exists>tbl. fold_err apply_reg (module_regs pms md) [] = Inr tbl
           \<and> connectors circ = emit_connectors tbl"
proof -
  from assms obtain st1 st2 where
    p: "fold_err port_step (ports md) \<lparr>st_n = 0, st_nets = [], st_devices = []\<rparr> = Inr st1"
    and c: "fold_err (cell_step pms) (cells md) st1 = Inr st2"
    and d: "connectors circ = emit_connectors (st_nets st2)"
    by (auto simp: convert_module_def bind_err_Inr)
  from ports_refine[OF p] have
    "fold_err apply_reg (port_regs 0 (ports md)) [] = Inr (st_nets st1)" "st_n st1 = length (ports md)"
    by simp_all
  with cells_refine[OF c] have "fold_err apply_reg (module_regs pms md) [] = Inr (st_nets st2)"
    by (simp add: module_regs_def fold_err_append bind_err_def)
  with d show ?thesis by blast
qed

lemma convert_module_regs:
  assumes "convert_module pms md = Inr circ"
  shows "distinct (map fst (drivers (module_regs pms md)))
     \<and> mset (connectors circ)
         = image_mset (\<lambda>(k, e). \<lparr>conn_from = e, conn_to = map_of (drivers (module_regs pms md)) k\<rparr>)
             (mset (listeners (module_regs pms md)))"
proof -
  from convert_refine[OF assms] obtain tbl where
    run: "fold_err apply_reg (module_regs pms md) [] = Inr tbl"
    and c: "connectors circ = emit_connectors tbl" by blast
  from apply_regs_props[OF run] have d: "distinct (map fst tbl)"
    and dd: "distinct (map fst (drivers (module_regs pms md)))"
    and s: "\<And>k. src tbl k = map_of (drivers (module_regs pms md)) k"
    and t: "mset (keyed_targets tbl) = mset (listeners (module_regs pms md))"
    by (simp_all add: src_def keyed_targets_def)
  have "mset (connectors circ)
      = image_mset (\<lambda>(k, t). \<lparr>conn_from = t, conn_to = src tbl k\<rparr>) (mset (keyed_targets tbl))"
    unfolding c emit_connectors_keyed[OF d] by simp
  with dd show ?thesis unfolding t by (simp add: s)
qed

lemma port_step_Inl:
  assumes "port_step (pname, p) st = Inl e"
    and "length (bits p) = 1" and "direction p = ''input'' \<or> direction p = ''output''"
  shows "e = MultipleDrivers"
proof -
  from assms have "direction p = ''input''"
    and "add_net_source (index0 (bits p)) (''dev'' @ string_of_nat (st_n st)) (Some ''out0'') (st_nets st) = Inl e"
    by (auto simp: port_step_def gen_name_eq Let_def bind_err_def split: if_splits sum.splits)
  then show ?thesis using add_net_source_Inl by blast
qed

lemma conn_step_Inl:
  assumes "conn_step (Some pm) conns dname (pname, pdir) tbl = Inl e"
    and "pdir = ''input'' \<or> pdir = ''output''" and "map_of conns pname \<noteq> None"
  shows "e = MultipleDrivers"
  using assms add_net_source_Inl
  by (auto simp: conn_step_def split: if_splits option.splits)

lemma cell_step_Inl:
  assumes "cell_step pms (cname, c) st = Inl e" and "valid_cell pms c"
  shows "e = MultipleDrivers"
proof -
  from assms(2) obtain pm where pm: "pms (cell_type c) = Some pm" and g: "check_gate c = Inr ()"
    by (auto simp: valid_cell_def)
  have v: "(pdir = ''input'' \<or> pdir = ''output'') \<and> map_of (connections c) pname \<noteq> None"
    if "(pname, pdir) \<in> set (port_directions c)" for pname pdir
    using assms(2) that by (auto simp: valid_cell_def list_all_iff)
  from assms(1) pm g have
    "fold_err (conn_step (Some pm) (connections c) (''dev'' @ string_of_nat (st_n st)))
       (port_directions c) (st_nets st) = Inl e"
    by (auto simp: cell_step_def gen_name_eq Let_def bind_err_def split: sum.splits)
  from fold_err_Inl[OF this] obtain a t where a: "a \<in> set (port_directions c)"
    and f: "conn_step (Some pm) (connections c) (''dev'' @ string_of_nat (st_n st)) a t = Inl e"
    by blast
  obtain pname pdir where "a = (pname, pdir)" by (cases a)
  with a f v[of pname pdir] show ?thesis using conn_step_Inl by blast
qed

lemma convert_module_Inl:
  assumes "convert_module pms md = Inl e" and "valid_module pms md"
  shows "e = MultipleDrivers"
proof -
  let ?s0 = "\<lparr>st_n = 0, st_nets = [], st_devices = []\<rparr>"
  show ?thesis
  proof (cases "fold_err port_step (ports md) ?s0")
    case (Inl e')
    with assms(1) have "e' = e" by (simp add: convert_module_def bind_err_def)
    with fold_err_Inl[OF Inl] obtain a t where a: "a \<in> set (ports md)" and f: "port_step a t = Inl e"
      by blast
    obtain pname p where ap: "a = (pname, p)" by (cases a)
    with a assms(2) have "length (bits p) = 1" "direction p = ''input'' \<or> direction p = ''output''"
      by (auto simp: valid_module_def list_all_iff)
    with f ap show ?thesis using port_step_Inl by blast
  next
    case (Inr st1)
    with assms(1) have c: "fold_err (cell_step pms) (cells md) st1 = Inl e"
      by (auto simp: convert_module_def bind_err_def split: sum.splits)
    from fold_err_Inl[OF c] obtain a t where a: "a \<in> set (cells md)" and f: "cell_step pms a t = Inl e"
      by blast
    obtain cname c where ac: "a = (cname, c)" by (cases a)
    with a assms(2) have "valid_cell pms c" by (auto simp: valid_module_def list_all_iff)
    with f ac show ?thesis using cell_step_Inl by blast
  qed
qed

text \<open>
  C6.  In every module that \<^verbatim>\<open>yosys_to_simcir\<close> converts, the connectors are, as a
  multiset, exactly one per listener registration (an output port, or an input of a cell):
  \<open>from\<close> is the listener's endpoint \<open>deviceId.slot\<close> and \<open>to\<close> the endpoint of the
  one driver registered for the listener's net (undefined when the net has none).  Nothing
  else is emitted, so a net without listeners contributes no connector.
\<close>

theorem connectors_per_listener:
  assumes "yosys_to_simcir data pms = Inr out"
  shows "list_all2 (\<lambda>(name, md) (name', circ). name' = name
            \<and> distinct (map fst (drivers (module_regs pms md)))
            \<and> mset (connectors circ)
                = image_mset (\<lambda>(k, e). \<lparr>conn_from = e, conn_to = map_of (drivers (module_regs pms md)) k\<rparr>)
                    (mset (listeners (module_regs pms md))))
          (modules data) out"
proof -
  from fold_err_collect[OF assms[unfolded yosys_to_simcir_def]]
  have "list_all2 (\<lambda>(n, x) (n', c). n = n' \<and> convert_module pms x = Inr c) (modules data) out"
    by simp
  then show ?thesis
    by (rule list_all2_mono) (auto dest: convert_module_regs)
qed

theorem connectors_per_listener_witness:
  "yosys_to_simcir single_module gate_portmaps = Inr [(''top'', and_converted)]
   \<and> listeners (module_regs gate_portmaps and_module)
       = [(Some 4, ''dev2.in0''), (Some 2, ''dev3.in0''), (Some 3, ''dev3.in1'')]
   \<and> drivers (module_regs gate_portmaps and_module)
       = [(Some 2, ''dev0.out0''), (Some 3, ''dev1.out0''), (Some 4, ''dev3.out0'')]
   \<and> mset (connectors and_converted)
       = {#\<lparr>conn_from = ''dev2.in0'', conn_to = Some ''dev3.out0''\<rparr>,
           \<lparr>conn_from = ''dev3.in0'', conn_to = Some ''dev0.out0''\<rparr>,
           \<lparr>conn_from = ''dev3.in1'', conn_to = Some ''dev1.out0''\<rparr>#}"
proof -
  have run: "yosys_to_simcir single_module gate_portmaps = Inr [(''top'', and_converted)]"
    by code_simp
  have l: "listeners (module_regs gate_portmaps and_module)
       = [(Some 4, ''dev2.in0''), (Some 2, ''dev3.in0''), (Some 3, ''dev3.in1'')]"
    by code_simp
  have d: "drivers (module_regs gate_portmaps and_module)
       = [(Some 2, ''dev0.out0''), (Some 3, ''dev1.out0''), (Some 4, ''dev3.out0'')]"
    by code_simp
  from connectors_per_listener[OF run]
  have "mset (connectors and_converted)
          = image_mset (\<lambda>(k, e). \<lparr>conn_from = e, conn_to = map_of (drivers (module_regs gate_portmaps and_module)) k\<rparr>)
              (mset (listeners (module_regs gate_portmaps and_module)))"
    by (simp add: single_module_def)
  then have "mset (connectors and_converted)
       = {#\<lparr>conn_from = ''dev2.in0'', conn_to = Some ''dev3.out0''\<rparr>,
           \<lparr>conn_from = ''dev3.in0'', conn_to = Some ''dev0.out0''\<rparr>,
           \<lparr>conn_from = ''dev3.in1'', conn_to = Some ''dev1.out0''\<rparr>#}"
    unfolding l d by simp
  with run l d show ?thesis by blast
qed

lemma apply_reg_keeps_driver:
  assumes "distinct (map fst tbl)" and "src tbl k = Some e" and "apply_reg r tbl = Inr tbl'"
  shows "src tbl' k = Some e"
proof (cases r)
  case (Driver k' d p)
  with assms(3) have a: "add_net_source k' d p tbl = Inr tbl'" by (simp add: apply_reg_def)
  have free: "src tbl k' = None"
    using a add_net_source_driven[of tbl k' d p] by (cases "src tbl k'") auto
  with assms(2) have "k' \<noteq> k" by auto
  moreover from add_net_source_free[OF assms(1) free, of d p] a
  have "src tbl' = (src tbl)(k' \<mapsto> d @ ''.'' @ js_str p)" by auto
  ultimately show ?thesis using assms(2) by simp
next
  case (Listener k' d p)
  with assms(3) have "tbl' = add_net_target k' d p tbl" by (simp add: apply_reg_def)
  then show ?thesis using add_net_target_props(2)[OF assms(1), of k' d p] assms(2) by simp
qed

lemma yosys_to_simcir_valid_fails:
  assumes "list_all (\<lambda>(name, md). valid_module pms md) mods"
    and "list_ex (\<lambda>(name, md). \<not> distinct (map fst (drivers (module_regs pms md)))) mods"
  shows "fold_err (\<lambda>(name, md) out. bind_err (convert_module pms md) (\<lambda>mout. Inr (out @ [(name, mout)])))
           mods acc = Inl MultipleDrivers"
  using assms
proof (induction mods arbitrary: acc)
  case Nil
  then show ?case by simp
next
  case (Cons a mods)
  obtain name md where a: "a = (name, md)" by (cases a)
  with Cons.prems(1) have v: "valid_module pms md"
    and vs: "list_all (\<lambda>(name, md). valid_module pms md) mods" by simp_all
  show ?case
  proof (cases "convert_module pms md")
    case (Inl e)
    with convert_module_Inl[OF Inl v] a show ?thesis by (simp add: bind_err_def)
  next
    case (Inr circ)
    from convert_module_regs[OF Inr] have "distinct (map fst (drivers (module_regs pms md)))" by simp
    with Cons.prems(2) a
    have "list_ex (\<lambda>(name, md). \<not> distinct (map fst (drivers (module_regs pms md)))) mods" by simp
    from Cons.IH[OF vs this] Inr a show ?thesis by (simp add: bind_err_def)
  qed
qed

text \<open>
  C4.  A conversion that succeeds has registered at most one driver on every net of every
  module; a netlist on which nothing else can fail, and in which some net has two driver
  registrations, fails with \<open>MultipleDrivers\<close>; \<^verbatim>\<open>add_net_source\<close> on a net that has
  a driver fails with \<open>MultipleDrivers\<close>; and no registration that succeeds changes the
  driver a net has.
\<close>

theorem second_driver_fails:
  "(yosys_to_simcir data pms = Inr out \<longrightarrow>
      list_all (\<lambda>(name, md). distinct (map fst (drivers (module_regs pms md)))) (modules data))
   \<and> (list_all (\<lambda>(name, md). valid_module pms md) (modules data)
       \<and> list_ex (\<lambda>(name, md). \<not> distinct (map fst (drivers (module_regs pms md)))) (modules data)
      \<longrightarrow> yosys_to_simcir data pms = Inl MultipleDrivers)
   \<and> (src tbl k \<noteq> None \<longrightarrow> add_net_source k d p tbl = Inl MultipleDrivers)
   \<and> (distinct (map fst tbl) \<and> src tbl k = Some e \<and> apply_reg r tbl = Inr tbl' \<longrightarrow> src tbl' k = Some e)"
proof -
  have "list_all (\<lambda>(name, md). distinct (map fst (drivers (module_regs pms md)))) (modules data)"
    if run: "yosys_to_simcir data pms = Inr out"
  proof -
    from fold_err_collect[OF run[unfolded yosys_to_simcir_def]]
    have "list_all2 (\<lambda>(n, x) (n', c). n = n' \<and> convert_module pms x = Inr c) (modules data) out"
      by simp
    then have "\<exists>c. convert_module pms md = Inr c" if "(name, md) \<in> set (modules data)" for name md
      using that by (auto simp: list_all2_conv_all_nth in_set_conv_nth split: prod.splits) (metis surj_pair)
    then show ?thesis by (auto simp: list_all_iff dest: convert_module_regs)
  qed
  moreover have "yosys_to_simcir data pms = Inl MultipleDrivers"
    if "list_all (\<lambda>(name, md). valid_module pms md) (modules data)"
      "list_ex (\<lambda>(name, md). \<not> distinct (map fst (drivers (module_regs pms md)))) (modules data)"
    unfolding yosys_to_simcir_def using that by (rule yosys_to_simcir_valid_fails)
  ultimately show ?thesis
    using add_net_source_driven apply_reg_keeps_driver by blast
qed

theorem second_driver_fails_witness:
  "yosys_to_simcir single_module gate_portmaps = Inr [(''top'', and_converted)]
   \<and> distinct (map fst (drivers (module_regs gate_portmaps and_module)))
   \<and> valid_module gate_portmaps two_drivers_module
   \<and> drivers (module_regs gate_portmaps two_drivers_module)
        = [(Some 2, ''dev0.out0''), (Some 3, ''dev1.out0''), (Some 2, ''dev2.out0'')]
   \<and> yosys_to_simcir two_drivers gate_portmaps = Inl MultipleDrivers
   \<and> src driven_table (Some 2) = Some ''dev0.out0''
   \<and> add_net_source (Some 2) ''dev2'' (Some ''out0'') driven_table = Inl MultipleDrivers
   \<and> src (add_net_target (Some 2) ''dev3'' (Some ''in1'') driven_table) (Some 2) = Some ''dev0.out0''"
proof -
  have run: "yosys_to_simcir single_module gate_portmaps = Inr [(''top'', and_converted)]"
    by code_simp
  from second_driver_fails[of single_module gate_portmaps "[(''top'', and_converted)]"] run
  have ok: "distinct (map fst (drivers (module_regs gate_portmaps and_module)))"
    by (simp add: single_module_def)
  have v: "valid_module gate_portmaps two_drivers_module"
    by (simp add: valid_module_def valid_cell_def two_drivers_module_def in_port_def gate_portmaps_def
        check_gate_def is_gate_def assert_width_def assert_dir_def bind_err_def)
  have d: "drivers (module_regs gate_portmaps two_drivers_module)
        = [(Some 2, ''dev0.out0''), (Some 3, ''dev1.out0''), (Some 2, ''dev2.out0'')]"
    by code_simp
  have nd: "\<not> distinct (map fst (drivers (module_regs gate_portmaps two_drivers_module)))"
    unfolding d by simp
  from second_driver_fails[of two_drivers gate_portmaps] v nd
  have fails: "yosys_to_simcir two_drivers gate_portmaps = Inl MultipleDrivers"
    by (simp add: two_drivers_def)
  have s: "src driven_table (Some 2) = Some ''dev0.out0''" by (simp add: src_def driven_table_def)
  have dt: "distinct (map fst driven_table)" by (simp add: driven_table_def)
  from second_driver_fails[of _ _ _ driven_table "Some 2" "''dev2''" "Some ''out0''"] s
  have a: "add_net_source (Some 2) ''dev2'' (Some ''out0'') driven_table = Inl MultipleDrivers"
    by simp
  have r: "apply_reg (Listener (Some 2) ''dev3'' (Some ''in1'')) driven_table
             = Inr (add_net_target (Some 2) ''dev3'' (Some ''in1'') driven_table)"
    by (simp add: apply_reg_def)
  from second_driver_fails[of _ _ _ driven_table "Some 2" _ _ "''dev0.out0''"
      "Listener (Some 2) ''dev3'' (Some ''in1'')" "add_net_target (Some 2) ''dev3'' (Some ''in1'') driven_table"]
    dt s r
  have k: "src (add_net_target (Some 2) ''dev3'' (Some ''in1'') driven_table) (Some 2) = Some ''dev0.out0''"
    by blast
  from run ok v d fails s a k show ?thesis by blast
qed

section \<open>C5: a port that the port map does not hold\<close>

text \<open>
  C5 (the code does otherwise): a port that the type's port map does not hold raises
  nothing.  In \<open>extra_port\<close> the instance \<open>u\<close> (device \<open>dev2\<close> of \<open>top\<close>) connects a
  port \<open>z\<close>, and the conversion returns a connector from the endpoint \<open>dev2.undefined\<close>.
\<close>

theorem missing_port_mapping_undefined_slot:
  "map_sum id (map (\<lambda>(name, circ). (name, connectors circ)))
     (bind_err (order_ports extra_port) (yosys_to_simcir extra_port)) =
     Inr [(''sub'', [\<lparr>conn_from = ''dev1.in0'', conn_to = Some ''dev0.out0''\<rparr>]),
          (''top'', [\<lparr>conn_from = ''dev2.in0'', conn_to = Some ''dev0.out0''\<rparr>,
                     \<lparr>conn_from = ''dev2.undefined'', conn_to = Some ''dev0.out0''\<rparr>,
                     \<lparr>conn_from = ''dev1.in0'', conn_to = Some ''dev2.out0''\<rparr>])]"
  by code_simp

section \<open>C7: the slots that \<^verbatim>\<open>order_ports\<close> assigns\<close>

lemma classify_ports_Inr:
  "classify_ports ps (ins0, outs0) = Inr (ins, outs) \<Longrightarrow>
     ins = ins0 @ pdata_of ''input'' ps \<and> outs = outs0 @ pdata_of ''output'' ps"
proof (induction ps arbitrary: ins0 outs0)
  case Nil
  then show ?case by (simp add: pdata_of_def)
next
  case (Cons a ps)
  obtain pname p where a: "a = (pname, p)" by (cases a)
  show ?case
  proof (cases "direction p = ''input''")
    case True
    with Cons.prems a have "classify_ports ps (ins0 @ [(pname, index0 (bits p))], outs0) = Inr (ins, outs)"
      by simp
    from Cons.IH[OF this] True a show ?thesis by (simp add: pdata_of_def)
  next
    case False
    with Cons.prems a have o: "direction p = ''output''" by (simp split: if_splits)
    with Cons.prems a False have "classify_ports ps (ins0, outs0 @ [(pname, index0 (bits p))]) = Inr (ins, outs)"
      by simp
    from Cons.IH[OF this] o a show ?thesis by (simp add: pdata_of_def)
  qed
qed

lemma pdata_of_ports_of:
  assumes "\<forall>(pname, p) \<in> set (ports md). bits p \<noteq> []"
  shows "pdata_of dir (ports md) = map some_num (ports_of dir md)"
proof -
  have "index0 (bits p) = Some (hd (bits p))" if "(pname, p) \<in> set (ports md)" for pname p
    using assms that by (cases "bits p") (auto simp: index0_def)
  then show ?thesis
    by (auto simp: pdata_of_def ports_of_def some_num_def)
qed

lemma insort_comp_some:
  "insort_comp (some_num a) (map some_num ys) = map some_num (insort_key snd a ys)"
  by (induction ys) (auto simp: some_num_def comes_after_def comp_def split: prod.splits)

lemma sort_comp_some: "sort_comp (map some_num xs) = map some_num (sort_key snd xs)"
  by (induction xs) (simp_all add: sort_comp_def sort_key_def insort_comp_some)

lemma fst_some_num: "fst (some_num a) = fst a"
  by (cases a) (simp add: some_num_def)

lemma assign_fold_other:
  "name \<notin> fst ` set xs \<Longrightarrow> fold (assign_slot pre) (enumerate n xs) pm name = pm name"
  by (induction xs arbitrary: n pm) (auto simp: assign_slot_def)

lemma assign_fold_nth:
  "distinct (map fst xs) \<Longrightarrow> k < length xs \<Longrightarrow>
   fold (assign_slot pre) (enumerate n xs) pm (fst (xs ! k)) = Some (pre @ string_of_nat (n + k))"
proof (induction xs arbitrary: n pm k)
  case Nil
  then show ?case by simp
next
  case (Cons x xs)
  show ?case
  proof (cases k)
    case 0
    have "fold (assign_slot pre) (enumerate (Suc n) xs) (assign_slot pre (n, x) pm) (fst x)
          = assign_slot pre (n, x) pm (fst x)"
      using Cons.prems by (intro assign_fold_other) simp
    with 0 show ?thesis by (simp add: assign_slot_def)
  next
    case (Suc j)
    with Cons.prems Cons.IH[of j "Suc n"] show ?thesis by simp
  qed
qed

lemma assign_slots_other: "name \<notin> fst ` set xs \<Longrightarrow> assign_slots pre xs pm name = pm name"
  by (simp add: assign_slots_def assign_fold_other)

lemma assign_slots_nth:
  "distinct (map fst xs) \<Longrightarrow> k < length xs \<Longrightarrow>
   assign_slots pre xs pm (fst (xs ! k)) = Some (pre @ string_of_nat k)"
  using assign_fold_nth[of xs k pre 0 pm] by (simp add: assign_slots_def)

lemma order_module_Inr:
  "order_module (name, md) out = Inr out' \<longleftrightarrow>
     (\<exists>pm. module_portmap md = Inr pm \<and> out' = out(name \<mapsto> pm))"
  by (cases "module_portmap md") (auto simp: order_module_def bind_err_def)

lemma order_fold:
  "fold_err order_module mods out0 = Inr pms \<Longrightarrow>
   (\<forall>g. g \<notin> fst ` set mods \<longrightarrow> pms g = out0 g) \<and>
   (distinct (map fst mods) \<longrightarrow>
      (\<forall>(name, md) \<in> set mods. \<exists>pm. module_portmap md = Inr pm \<and> pms name = Some pm))"
proof (induction mods arbitrary: out0)
  case Nil
  then show ?case by simp
next
  case (Cons a mods)
  obtain name md where a: "a = (name, md)" by (cases a)
  from Cons.prems a obtain out1 where s: "order_module (name, md) out0 = Inr out1"
    and rest: "fold_err order_module mods out1 = Inr pms"
    by (cases "order_module (name, md) out0") auto
  from s obtain pm where pm: "module_portmap md = Inr pm" and out1: "out1 = out0(name \<mapsto> pm)"
    unfolding order_module_Inr by blast
  from Cons.IH[OF rest] have
    other: "\<forall>g. g \<notin> fst ` set mods \<longrightarrow> pms g = out1 g"
    and those: "distinct (map fst mods) \<longrightarrow>
      (\<forall>(name, md) \<in> set mods. \<exists>pm. module_portmap md = Inr pm \<and> pms name = Some pm)"
    by blast+
  have "\<forall>g. g \<notin> fst ` set (a # mods) \<longrightarrow> pms g = out0 g" using other a out1 by auto
  moreover have "\<forall>(name, md) \<in> set (a # mods). \<exists>pm. module_portmap md = Inr pm \<and> pms name = Some pm"
    if d: "distinct (map fst (a # mods))"
  proof -
    from d a have "name \<notin> fst ` set mods" "distinct (map fst mods)" by auto
    with other those pm a out1 show ?thesis by auto
  qed
  ultimately show ?case by blast
qed

lemma distinct_fst_sort_key:
  "distinct (map fst xs) \<Longrightarrow> distinct (map fst (sort_key f xs))"
proof -
  have "mset (map fst (sort_key f xs)) = mset (map fst xs)" by simp
  then show "distinct (map fst xs) \<Longrightarrow> distinct (map fst (sort_key f xs))"
    by (metis mset_eq_imp_distinct_iff)
qed

lemma ports_of_fst:
  "map fst (ports_of dir md) = map fst (filter (\<lambda>(pname, p). direction p = dir) (ports md))"
proof -
  have "map fst (map (\<lambda>(pname, p). (pname, hd (bits p))) xs) = map fst xs"
    for xs :: "(string \<times> port) list"
    by (induction xs) auto
  then show ?thesis by (simp only: ports_of_def)
qed

lemma ports_of_distinct:
  "distinct (map fst (ports md)) \<Longrightarrow> distinct (map fst (ports_of dir md))"
  by (simp only: ports_of_fst distinct_map_filter)

lemma ports_of_disjoint:
  assumes "distinct (map fst (ports md))" "dir \<noteq> dir'"
  shows "fst ` set (ports_of dir md) \<inter> fst ` set (ports_of dir' md) = {}"
proof -
  have same: "p = q" if "(n, p) \<in> set (ports md)" "(n, q) \<in> set (ports md)" for n p q
    using assms(1) that by (meson eq_key_imp_eq_value)
  have mem: "\<exists>p. (n, p) \<in> set (ports md) \<and> direction p = d" if "n \<in> fst ` set (ports_of d md)" for n d
    using that by (auto simp: ports_of_def)
  show ?thesis
  proof (rule ccontr)
    assume "fst ` set (ports_of dir md) \<inter> fst ` set (ports_of dir' md) \<noteq> {}"
    then obtain n where "n \<in> fst ` set (ports_of dir md)" "n \<in> fst ` set (ports_of dir' md)" by blast
    then obtain p q where "(n, p) \<in> set (ports md)" "direction p = dir"
      "(n, q) \<in> set (ports md)" "direction q = dir'" using mem by blast
    with same[of n p q] assms(2) show False by simp
  qed
qed

lemma module_portmap_slots:
  assumes pm: "module_portmap md = Inr pm"
    and d: "distinct (map fst (ports md))"
    and b: "\<forall>(pname, p) \<in> set (ports md). bits p \<noteq> []"
  shows "(\<forall>k < length (ports_of ''input'' md).
            pm (fst (sort_key snd (ports_of ''input'' md) ! k)) = Some (''in'' @ string_of_nat k))
       \<and> (\<forall>k < length (ports_of ''output'' md).
            pm (fst (sort_key snd (ports_of ''output'' md) ! k)) = Some (''out'' @ string_of_nat k))"
proof -
  let ?ins = "sort_key snd (ports_of ''input'' md)"
  let ?outs = "sort_key snd (ports_of ''output'' md)"
  from pm obtain ins outs where c: "classify_ports (ports md) ([], []) = Inr (ins, outs)"
    and pm': "pm = assign_slots ''out'' (sort_comp outs) (assign_slots ''in'' (sort_comp ins) Map.empty)"
    by (auto simp: module_portmap_def bind_err_Inr)
  from classify_ports_Inr[OF c] have "ins = pdata_of ''input'' (ports md)" "outs = pdata_of ''output'' (ports md)"
    by simp_all
  then have si: "sort_comp ins = map some_num ?ins" and so: "sort_comp outs = map some_num ?outs"
    by (simp_all add: pdata_of_ports_of[OF b] sort_comp_some)
  have fsts: "map fst (map some_num xs) = map fst xs" for xs
    by (induction xs) (auto simp: fst_some_num)
  have di: "distinct (map fst (map some_num ?ins))" and do: "distinct (map fst (map some_num ?outs))"
    unfolding fsts using d by (simp_all only: distinct_fst_sort_key ports_of_distinct)
  have disj: "fst ` set (ports_of ''input'' md) \<inter> fst ` set (ports_of ''output'' md) = {}"
    by (rule ports_of_disjoint[OF d]) simp
  have "pm (fst (?ins ! k)) = Some (''in'' @ string_of_nat k)" if k: "k < length (ports_of ''input'' md)" for k
  proof -
    have "?ins ! k \<in> set (ports_of ''input'' md)" using k
      by (metis length_sort nth_mem set_sort)
    then have "fst (?ins ! k) \<notin> fst ` set (map some_num ?outs)"
      using disj by (auto simp: fst_some_num image_iff)
    then have "pm (fst (?ins ! k)) = assign_slots ''in'' (map some_num ?ins) Map.empty (fst (?ins ! k))"
      unfolding pm' si so by (rule assign_slots_other)
    moreover have e: "fst (?ins ! k) = fst (map some_num ?ins ! k)" using k by (simp add: fst_some_num)
    moreover have "assign_slots ''in'' (map some_num ?ins) Map.empty (fst (map some_num ?ins ! k))
                 = Some (''in'' @ string_of_nat k)"
      using k by (intro assign_slots_nth[OF di]) simp
    ultimately show ?thesis by (simp only:)
  qed
  moreover
  have "pm (fst (?outs ! k)) = Some (''out'' @ string_of_nat k)" if k: "k < length (ports_of ''output'' md)" for k
  proof -
    have "fst (?outs ! k) = fst (map some_num ?outs ! k)" using k by (simp add: fst_some_num)
    moreover have "assign_slots ''out'' (map some_num ?outs) (assign_slots ''in'' (sort_comp ins) Map.empty)
                 (fst (map some_num ?outs ! k)) = Some (''out'' @ string_of_nat k)"
      using k by (intro assign_slots_nth[OF do]) simp
    ultimately show ?thesis by (simp only: pm' so)
  qed
  ultimately show ?thesis by blast
qed

text \<open>
  C7.  For every module (with distinct port names, every port with a bit index) the port
  map that \<^verbatim>\<open>order_ports\<close> returns gives the input port of rank \<open>k\<close> in the stable
  ascending order of bit indices the slot \<open>in\<close>\<open>k\<close>, and independently the output port
  of rank \<open>k\<close> the slot \<open>out\<close>\<open>k\<close>, ranks counted from 0; and each of the gate types
  \<open>$and\<close>, \<open>$or\<close>, \<open>$xor\<close> (no module of the netlist bearing that name) has the
  fixed map A to in0, B to in1, Y to out0.
\<close>

theorem order_ports_slots:
  assumes "order_ports data = Inr pms"
    and "distinct (map fst (modules data))"
  shows "(\<forall>(name, md) \<in> set (modules data).
            distinct (map fst (ports md)) \<and> (\<forall>(pname, p) \<in> set (ports md). bits p \<noteq> []) \<longrightarrow>
            (\<exists>pm. pms name = Some pm
               \<and> (\<forall>k < length (ports_of ''input'' md).
                     pm (fst (sort_key snd (ports_of ''input'' md) ! k)) = Some (''in'' @ string_of_nat k))
               \<and> (\<forall>k < length (ports_of ''output'' md).
                     pm (fst (sort_key snd (ports_of ''output'' md) ! k)) = Some (''out'' @ string_of_nat k))))
       \<and> (\<forall>g. is_gate g \<and> g \<notin> fst ` set (modules data) \<longrightarrow> pms g = Some binmap)
       \<and> binmap = [''A'' \<mapsto> ''in0'', ''B'' \<mapsto> ''in1'', ''Y'' \<mapsto> ''out0'']"
proof -
  from order_fold[OF assms(1)[unfolded order_ports_def]] assms(2) have
    other: "\<forall>g. g \<notin> fst ` set (modules data) \<longrightarrow> pms g = gate_portmaps g"
    and those: "\<forall>(name, md) \<in> set (modules data). \<exists>pm. module_portmap md = Inr pm \<and> pms name = Some pm"
    by blast+
  have "\<exists>pm. pms name = Some pm
               \<and> (\<forall>k < length (ports_of ''input'' md).
                     pm (fst (sort_key snd (ports_of ''input'' md) ! k)) = Some (''in'' @ string_of_nat k))
               \<and> (\<forall>k < length (ports_of ''output'' md).
                     pm (fst (sort_key snd (ports_of ''output'' md) ! k)) = Some (''out'' @ string_of_nat k))"
    if "(name, md) \<in> set (modules data)" "distinct (map fst (ports md))"
       "\<forall>(pname, p) \<in> set (ports md). bits p \<noteq> []" for name md
  proof -
    from those that(1) obtain pm where "module_portmap md = Inr pm" "pms name = Some pm" by blast
    with module_portmap_slots[OF this(1) that(2,3)] show ?thesis by blast
  qed
  moreover have "pms g = Some binmap" if "is_gate g" "g \<notin> fst ` set (modules data)" for g
  proof -
    have "pms g = gate_portmaps g" using other that(2) by blast
    with that(1) show ?thesis by (auto simp: is_gate_def gate_portmaps_def)
  qed
  ultimately show ?thesis by (auto simp: binmap_def)
qed

theorem order_ports_slots_witness:
  "\<exists>pms pm. order_ports three_inputs = Inr pms \<and> pms ''m'' = Some pm
      \<and> pm ''p1'' = Some ''in0'' \<and> pm ''p2'' = Some ''in1'' \<and> pm ''p3'' = Some ''in2''
      \<and> pm ''q'' = Some ''out0'' \<and> pms ''$and'' = Some binmap"
proof -
  have "\<not> isl (order_ports three_inputs)" by code_simp
  then obtain pms where run: "order_ports three_inputs = Inr pms"
    by (cases "order_ports three_inputs") auto
  have d: "distinct (map fst (modules three_inputs))" by (simp add: three_inputs_def)
  have m: "(''m'', three_inputs_module) \<in> set (modules three_inputs)" by (simp add: three_inputs_def)
  have w: "distinct (map fst (ports three_inputs_module))
     \<and> (\<forall>(pname, p) \<in> set (ports three_inputs_module). bits p \<noteq> [])"
    by (simp add: three_inputs_module_def in_port_def out_port_def)
  have ins: "sort_key snd (ports_of ''input'' three_inputs_module) = [(''p1'', 1), (''p2'', 2), (''p3'', 3)]"
    by (simp add: ports_of_def three_inputs_module_def in_port_def out_port_def)
  have outs: "sort_key snd (ports_of ''output'' three_inputs_module) = [(''q'', 4)]"
    by (simp add: ports_of_def three_inputs_module_def in_port_def out_port_def)
  have li: "length (ports_of ''input'' three_inputs_module) = 3"
    and lo: "length (ports_of ''output'' three_inputs_module) = 1"
    by (simp_all add: ports_of_def three_inputs_module_def in_port_def out_port_def)
  have g: "is_gate ''$and'' \<and> ''$and'' \<notin> fst ` set (modules three_inputs)"
    by (simp add: is_gate_def three_inputs_def)
  from order_ports_slots[OF run d] m w g obtain pm where pm: "pms ''m'' = Some pm"
    and i0: "\<forall>k < length (ports_of ''input'' three_inputs_module).
       pm (fst (sort_key snd (ports_of ''input'' three_inputs_module) ! k)) = Some (''in'' @ string_of_nat k)"
    and o0: "\<forall>k < length (ports_of ''output'' three_inputs_module).
       pm (fst (sort_key snd (ports_of ''output'' three_inputs_module) ! k)) = Some (''out'' @ string_of_nat k)"
    and a: "pms ''$and'' = Some binmap"
    by blast
  from i0 have i: "\<forall>k<3. pm (fst ([(''p1'', 1), (''p2'', 2), (''p3'', 3::nat)] ! k)) = Some (''in'' @ string_of_nat k)"
    unfolding ins li .
  from o0 have o: "\<forall>k<1. pm (fst ([(''q'', 4::nat)] ! k)) = Some (''out'' @ string_of_nat k)"
    unfolding outs lo .
  from i have "pm ''p1'' = Some ''in0''" "pm ''p2'' = Some ''in1''" "pm ''p3'' = Some ''in2''"
    using spec[OF i, of 0] spec[OF i, of 1] spec[OF i, of 2]
    by (simp_all add: string_of_nat.simps digit_def)
  moreover from o have "pm ''q'' = Some ''out0''"
    using spec[OF o, of 0] by (simp add: string_of_nat.simps digit_def)
  ultimately show ?thesis using run pm a by blast
qed

section \<open>C8: the width of bit lists\<close>

text \<open>
  C8 (the code does otherwise): only module ports and the ports A, B, Y of the three
  gates are checked for width.  In \<open>wide_connection\<close> the instance connects nets 2 and 5
  to one port; the conversion succeeds and listens on net 2 alone (net 5, driven by
  \<open>dev1\<close>, gets no connector).
\<close>

theorem wide_connection_truncated:
  "map_sum id (map (\<lambda>(name, circ). (name, connectors circ)))
     (bind_err (order_ports wide_connection) (yosys_to_simcir wide_connection)) =
     Inr [(''sub'', [\<lparr>conn_from = ''dev1.in0'', conn_to = Some ''dev0.out0''\<rparr>]),
          (''top'', [\<lparr>conn_from = ''dev3.in0'', conn_to = Some ''dev0.out0''\<rparr>,
                     \<lparr>conn_from = ''dev2.in0'', conn_to = Some ''dev3.out0''\<rparr>])]"
  by code_simp

section \<open>C9: the modules that are emitted\<close>

text \<open>
  C9 (the code does otherwise): the script prints only modules that occur in a dependency
  edge.  For a netlist of one module the sort of no edges is empty, \<^verbatim>\<open>pop\<close> gives
  \<^verbatim>\<open>undefined\<close> and the script prints no diagram at all; in \<open>with_spare\<close> the module
  \<open>spare\<close> is left out.
\<close>

theorem isolated_modules_omitted:
  "main topsort_ref column_layout single_module = Inr [TopLevel None None]
   \<and> main topsort_ref column_layout with_spare =
       Inr [RegisterDevice ''sub'' (Some blank), TopLevel (Some ''top'') (Some (box ''sub''))]"
  by code_simp

section \<open>C10: the canvas of a laid-out module\<close>

lemma port_step_unplaced:
  "port_step a st = Inr st' \<Longrightarrow> unplaced (st_devices st) \<Longrightarrow> unplaced (st_devices st')"
  by (cases a) (auto simp: port_step_def unplaced_def gen_name_def Let_def bind_err_Inr split: if_splits)

lemma cell_step_unplaced:
  "cell_step pms a st = Inr st' \<Longrightarrow> unplaced (st_devices st) \<Longrightarrow> unplaced (st_devices st')"
  by (cases a) (auto simp: cell_step_def unplaced_def gen_name_def Let_def bind_err_Inr split: if_splits)

lemma convert_module_unplaced:
  assumes "convert_module pms md = Inr circ"
  shows "unplaced (devices circ)"
proof -
  from assms obtain st1 st2 where
    p: "fold_err port_step (ports md) \<lparr>st_n = 0, st_nets = [], st_devices = []\<rparr> = Inr st1"
    and c: "fold_err (cell_step pms) (cells md) st1 = Inr st2"
    and d: "devices circ = st_devices st2"
    by (auto simp: convert_module_def bind_err_Inr)
  have "unplaced (st_devices st1)"
    by (rule fold_err_invariant[OF p, where P = "\<lambda>s. unplaced (st_devices s)"])
       (auto simp: unplaced_def intro: port_step_unplaced[unfolded unplaced_def])
  then have "unplaced (st_devices st2)"
    by (rule fold_err_invariant[OF c, where P = "\<lambda>s. unplaced (st_devices s)"])
       (auto intro: cell_step_unplaced)
  then show ?thesis by (simp add: d)
qed

lemma fold_max: "fold (\<lambda>v m. max m (f v)) vs (b::real) = Max (insert b (f ` set vs))"
proof (induction vs arbitrary: b)
  case Nil
  then show ?case by simp
next
  case (Cons v vs)
  have "Max (insert (max b (f v)) (f ` set vs)) = Max (insert b (insert (f v) (f ` set vs)))"
    by (cases "f ` set vs = {}") (auto simp: max.assoc)
  with Cons show ?case by simp
qed

lemma set_graph_nodes: "set (graph_nodes devs) = dev_id ` set devs"
  by (simp add: graph_nodes_def)

lemma place_devices_ids: "map dev_id (place_devices pos ds) = map dev_id ds"
  by (induction ds) auto

lemma place_devices_sub:
  "unplaced ds \<Longrightarrow> f = (\<lambda>d. fst (pos (dev_id d))) \<Longrightarrow>
   dev_x ` set (place_devices pos ds) \<subseteq> insert 0 (f ` set ds)"
  by (induction ds) (auto simp: unplaced_def)

lemma place_devices_sup:
  "v \<in> dev_id ` set ds \<Longrightarrow> fst (pos v) \<in> dev_x ` set (place_devices pos ds)
     \<and> snd (pos v) \<in> dev_y ` set (place_devices pos ds)"
proof (induction ds)
  case Nil
  then show ?case by simp
next
  case (Cons a ds)
  show ?case
  proof (cases "v \<in> dev_id ` set ds")
    case True
    with Cons.IH show ?thesis by auto
  next
    case False
    with Cons.prems have v: "v = dev_id a" by auto
    let ?a = "a\<lparr>dev_x := fst (pos (dev_id a)), dev_y := snd (pos (dev_id a))\<rparr>"
    have "?a \<in> set (place_devices pos (a # ds))" using False v by simp
    moreover have "dev_x ?a = fst (pos v)" "dev_y ?a = snd (pos v)" using v by simp_all
    ultimately show ?thesis by (metis image_eqI)
  qed
qed

lemma layout_circuit_Inr:
  assumes "layout_circuit dagre c0 = Inr circ"
  shows "\<exists>pos. (\<exists>nodes edges. pos = dagre nodes edges)
           \<and> devices circ = place_devices pos (devices c0)
           \<and> width circ = Max (insert 0 ((\<lambda>d. fst (pos (dev_id d))) ` set (devices c0))) + 256
           \<and> height circ = Max (insert 0 ((\<lambda>d. snd (pos (dev_id d))) ` set (devices c0))) + 64"
proof -
  from assms obtain edges where e: "graph_edges (connectors c0) = Inr edges"
    by (auto simp: layout_circuit_def bind_err_Inr)
  let ?nodes = "graph_nodes (devices c0)"
  let ?pos = "dagre ?nodes edges"
  from assms e have circ: "circ = c0\<lparr>devices := place_devices ?pos (devices c0),
      width := fold (\<lambda>v m. max m (fst (?pos v))) ?nodes 0 + 256,
      height := fold (\<lambda>v m. max m (snd (?pos v))) ?nodes 0 + 64\<rparr>"
    by (auto simp: layout_circuit_def bind_err_def Let_def split: if_splits)
  have "width circ = Max (insert 0 ((\<lambda>d. fst (?pos (dev_id d))) ` set (devices c0))) + 256"
    by (simp add: circ fold_max set_graph_nodes image_image)
  moreover have "height circ = Max (insert 0 ((\<lambda>d. snd (?pos (dev_id d))) ` set (devices c0))) + 64"
    by (simp add: circ fold_max set_graph_nodes image_image)
  moreover have "devices circ = place_devices ?pos (devices c0)" by (simp add: circ)
  ultimately show ?thesis by blast
qed

lemma Max_placed:
  fixes S X :: "real set"
  assumes "finite X" "X \<noteq> {}" "X \<subseteq> S" "S \<subseteq> insert 0 X" "\<forall>x\<in>X. 0 \<le> x"
  shows "Max (insert 0 X) = Max S"
proof -
  have fS: "finite S" using assms(1,4) by (meson finite_insert finite_subset)
  have "S \<noteq> {}" using assms(2,3) by auto
  have "Max S \<le> Max (insert 0 X)" using assms(1,4) \<open>S \<noteq> {}\<close> by (intro Max_mono) auto
  moreover have "Max X \<le> Max S" using assms(2,3) fS by (intro Max_mono) auto
  moreover have "Max (insert 0 X) = Max X"
  proof -
    obtain x where "x \<in> X" using assms(2) by auto
    then have "0 \<le> Max X" using assms(1,5) by (meson Max_ge order_trans)
    then show ?thesis using assms(1,2) by (simp add: max_def)
  qed
  ultimately show ?thesis by simp
qed

lemma place_devices_sub_y:
  "unplaced ds \<Longrightarrow> f = (\<lambda>d. snd (pos (dev_id d))) \<Longrightarrow>
   dev_y ` set (place_devices pos ds) \<subseteq> insert 0 (f ` set ds)"
  by (induction ds) (auto simp: unplaced_def)

lemma place_devices_Nil: "place_devices pos ds = [] \<longleftrightarrow> ds = []"
  by (cases ds) auto

text \<open>
  C10.  After layout every module diagram has a width of at least 256 and a height of at
  least 64; a module without devices gets exactly 256 by 64, and is laid out without
  error; and, the layout engine giving no negative coordinate, the width is the greatest
  device \<open>x\<close> (0 without devices) plus 256 and the height the greatest device \<open>y\<close>
  (0 without devices) plus 64.
\<close>

theorem layout_canvas_size:
  assumes "bind_err (yosys_to_simcir data pms) (layout_circuits dagre) = Inr out"
    and "(name, circ) \<in> set out"
  shows "256 \<le> width circ \<and> 64 \<le> height circ
     \<and> (devices circ = [] \<longrightarrow> width circ = 256 \<and> height circ = 64)
     \<and> ((\<forall>nodes edges v. 0 \<le> fst (dagre nodes edges v) \<and> 0 \<le> snd (dagre nodes edges v)) \<longrightarrow>
          width circ = (if devices circ = [] then 0 else Max (dev_x ` set (devices circ))) + 256
        \<and> height circ = (if devices circ = [] then 0 else Max (dev_y ` set (devices circ))) + 64)
     \<and> bind_err (convert_module pms \<lparr>ports = [], cells = []\<rparr>) (layout_circuit dagre)
          = Inr \<lparr>width = 256, height = 64, devices = [], connectors = []\<rparr>"
proof -
  from assms(1) obtain out0 where y: "yosys_to_simcir data pms = Inr out0"
    and l: "layout_circuits dagre out0 = Inr out"
    by (auto simp: bind_err_Inr)
  from fold_err_collect_mem[OF l[unfolded layout_circuits_def] assms(2)]
  obtain c0 where c0: "(name, c0) \<in> set out0" and lc: "layout_circuit dagre c0 = Inr circ" by blast
  from fold_err_collect_mem[OF y[unfolded yosys_to_simcir_def] c0]
  obtain md where "convert_module pms md = Inr c0" by blast
  then have un: "unplaced (devices c0)" by (rule convert_module_unplaced)
  from layout_circuit_Inr[OF lc] obtain pos where pos: "\<exists>nodes edges. pos = dagre nodes edges"
    and dv: "devices circ = place_devices pos (devices c0)"
    and w: "width circ = Max (insert 0 ((\<lambda>d. fst (pos (dev_id d))) ` set (devices c0))) + 256"
    and h: "height circ = Max (insert 0 ((\<lambda>d. snd (pos (dev_id d))) ` set (devices c0))) + 64"
    by blast
  let ?X = "(\<lambda>d. fst (pos (dev_id d))) ` set (devices c0)"
  let ?Y = "(\<lambda>d. snd (pos (dev_id d))) ` set (devices c0)"
  have low: "256 \<le> width circ \<and> 64 \<le> height circ"
  proof -
    have "0 \<le> Max (insert 0 ?X)" "0 \<le> Max (insert 0 ?Y)" by (rule Max_ge; simp)+
    then show ?thesis using w h by simp
  qed
  have none: "devices circ = [] \<longrightarrow> width circ = 256 \<and> height circ = 64"
    using w h dv by (simp add: place_devices_Nil)
  have exact: "width circ = (if devices circ = [] then 0 else Max (dev_x ` set (devices circ))) + 256
        \<and> height circ = (if devices circ = [] then 0 else Max (dev_y ` set (devices circ))) + 64"
    if nn: "\<forall>nodes edges v. 0 \<le> fst (dagre nodes edges v) \<and> 0 \<le> snd (dagre nodes edges v)"
  proof (cases "devices c0 = []")
    case True
    then show ?thesis using w h dv by simp
  next
    case False
    then have ne: "devices circ \<noteq> []" "?X \<noteq> {}" "?Y \<noteq> {}" using dv by (simp_all add: place_devices_Nil)
    have posn: "0 \<le> fst (pos v) \<and> 0 \<le> snd (pos v)" for v using pos nn by auto
    have "?X \<subseteq> dev_x ` set (devices circ)" "?Y \<subseteq> dev_y ` set (devices circ)"
      using place_devices_sup[of _ "devices c0" pos] dv by auto
    moreover have "dev_x ` set (devices circ) \<subseteq> insert 0 ?X" "dev_y ` set (devices circ) \<subseteq> insert 0 ?Y"
      using place_devices_sub[OF un refl, of pos] place_devices_sub_y[OF un refl, of pos] dv by simp_all
    ultimately have "Max (insert 0 ?X) = Max (dev_x ` set (devices circ))"
      "Max (insert 0 ?Y) = Max (dev_y ` set (devices circ))"
      using ne posn by (intro Max_placed; simp)+
    then show ?thesis using w h ne by simp
  qed
  have empty: "bind_err (convert_module pms \<lparr>ports = [], cells = []\<rparr>) (layout_circuit dagre)
          = Inr \<lparr>width = 256, height = 64, devices = [], connectors = []\<rparr>"
    by (simp add: convert_module_def bind_err_def layout_circuit_def graph_edges_def
        emit_connectors_def graph_nodes_def)
  from low none exact empty show ?thesis by blast
qed

theorem layout_canvas_size_witness:
  "bind_err (yosys_to_simcir with_spare gate_portmaps) (layout_circuits column_layout)
     = Inr [(''top'', box ''sub''), (''sub'', blank), (''spare'', and_diagram)]
   \<and> devices blank = [] \<and> width blank = 256 \<and> height blank = 64
   \<and> width and_diagram = Max (dev_x ` set (devices and_diagram)) + 256
   \<and> height and_diagram = Max (dev_y ` set (devices and_diagram)) + 64
   \<and> width and_diagram = 272 \<and> height and_diagram = 326"
proof -
  have run: "bind_err (yosys_to_simcir with_spare gate_portmaps) (layout_circuits column_layout)
     = Inr [(''top'', box ''sub''), (''sub'', blank), (''spare'', and_diagram)]"
    by code_simp
  have nn: "\<forall>nodes edges v. 0 \<le> fst (column_layout nodes edges v) \<and> 0 \<le> snd (column_layout nodes edges v)"
    by (simp add: column_layout_def)
  have ne: "devices and_diagram \<noteq> []" by (simp add: and_diagram_def)
  have e: "devices blank = []" by (simp add: blank_def)
  from layout_canvas_size[OF run, of "''sub''" blank] e
  have "width blank = 256 \<and> height blank = 64" by simp
  moreover from layout_canvas_size[OF run, of "''spare''" and_diagram] nn ne
  have "width and_diagram = Max (dev_x ` set (devices and_diagram)) + 256
      \<and> height and_diagram = Max (dev_y ` set (devices and_diagram)) + 64" by simp
  moreover have "width and_diagram = 272 \<and> height and_diagram = 326" by (simp add: and_diagram_def)
  ultimately show ?thesis using run e by blast
qed

end
